theory Spec2Isabelle
  imports Complex_Main "HOL-Library.AList"
begin


section \<open>The WAN bridge of LNK-22 (src/web-client/wan\_bridge.py)\<close>

text \<open>
  The bridge keeps three Python dictionaries (sites, seen messages, routing table).
  The code iterates over \<open>sites\<close> (every broadcast sends in that order), so it is an
  association list: a Python \<open>dict\<close> iterates in insertion order, assignment to an
  existing key keeps its position and assignment to a new key appends, which is
  \<open>AList.update\<close>; \<open>del d[k]\<close> is \<open>AList.delete\<close>, \<open>d[k]\<close> and \<open>k in d\<close> read \<open>map_of\<close>.
  The other two are only looked up, assigned and rebuilt by a comprehension with a
  condition, so they are maps \<open>key \<rightharpoonup> value\<close>.

  Clock readings (\<open>datetime.now()\<close>, \<open>time.time()\<close>) are seconds as real numbers and are
  passed to every operation that reads the clock. \<open>timedelta(seconds=90)\<close> is \<open>90\<close>.
\<close>

type_synonym time = real

subsection \<open>Messages\<close>

text \<open>
  An inbound JSON object, restricted to the shapes of the protocol: the keys the bridge
  reads (\<open>type\<close>, \<open>site_id\<close>, \<open>name\<close>, \<open>dest\<close>, \<open>nodes\<close>) are absent or hold a string (a list
  of strings for \<open>nodes\<close>); everything else the object carries is \<open>msg_payload\<close>.
\<close>

record message =
  msg_type :: "string option"
  msg_site_id :: "string option"
  msg_name :: "string option"
  msg_dest :: "string option"
  msg_nodes :: "string list option"
  msg_payload :: string

text \<open>\<open>d.get(key, default)\<close> on an optional field.\<close>

definition get_default :: "'a \<Rightarrow> 'a option \<Rightarrow> 'a" where
  "get_default d v = (case v of None \<Rightarrow> d | Some x \<Rightarrow> x)"

text \<open>What the bridge sends: the dictionaries it builds, and relayed messages as they came.\<close>

datatype wire =
    SitesUpdate "(string \<times> string \<times> nat \<times> time) list" nat
  | SiteLeft string string
  | SitesList "(string \<times> string \<times> nat) list"
  | Registered string string
  | ErrorMsg string
  | Relayed message

subsection \<open>Sites and the bridge\<close>

record site =
  site_id :: string
  websocket :: nat
  name :: string
  nodes :: "string set"
  connected_at :: time
  last_heartbeat :: time
  messages_relayed :: int
  bytes_relayed :: int

text \<open>
  The fields of \<open>WANBridge\<close>, and the transport beside them: \<open>closed\<close> holds the
  websockets on which \<open>send\<close> raises \<open>ConnectionClosed\<close>, \<open>sent\<close> logs every call of
  \<open>websocket.send\<close> in order (the socket and the message), whether it raised or not.
\<close>

record bridge =
  sites :: "(string \<times> site) list"
  seen_messages :: "string \<rightharpoonup> time"
  message_ttl :: time
  routing_table :: "string \<rightharpoonup> string"
  total_messages :: int
  total_bytes :: int
  start_time :: time
  closed :: "nat set"
  sent :: "(nat \<times> wire) list"

text \<open>\<open>WANBridge.__init__\<close>, on a transport with the given closed sockets.\<close>

definition init :: "time \<Rightarrow> nat set \<Rightarrow> bridge" where
  "init now cl = \<lparr> sites = [], seen_messages = Map.empty, message_ttl = 60,
     routing_table = Map.empty,
     total_messages = 0, total_bytes = 0, start_time = now, closed = cl, sent = [] \<rparr>"

text \<open>
  \<open>await ws.send(...)\<close>: the call is logged by \<open>send\<close>; it raises
  \<open>ConnectionClosed\<close> exactly when \<open>send_raises\<close>.
\<close>

definition send :: "nat \<Rightarrow> wire \<Rightarrow> bridge \<Rightarrow> bridge" where
  "send ws w b = b\<lparr>sent := sent b @ [(ws, w)]\<rparr>"

definition send_raises :: "nat \<Rightarrow> bridge \<Rightarrow> bool" where
  "send_raises ws b = (ws \<in> closed b)"

subsection \<open>Unregistering and broadcasting\<close>

text \<open>
  The comprehension \<open>{node: sid for node, sid in routing_table.items() if sid != site_id}\<close>.
\<close>

definition purge :: "string \<Rightarrow> (string \<rightharpoonup> string) \<Rightarrow> (string \<rightharpoonup> string)" where
  "purge sid rt = (\<lambda>node. case rt node of None \<Rightarrow> None
                                | Some owner \<Rightarrow> if owner \<noteq> sid then Some owner else None)"

text \<open>
  \<open>unregister_site\<close> and \<open>broadcast\<close> call each other: a broadcast unregisters every
  site whose send raises, and unregistering broadcasts \<open>site_left\<close>. \<open>broadcast_loop\<close> is
  the \<open>for\<close> loop of \<open>broadcast\<close> over the snapshot \<open>list(self.sites.items())\<close>; the
  snapshot keeps sites that the loop's own unregistering has removed meanwhile.
\<close>

function unregister_site :: "string \<Rightarrow> bridge \<Rightarrow> bridge"
  and broadcast_loop :: "wire \<Rightarrow> string option \<Rightarrow> (string \<times> site) list \<Rightarrow> bridge \<Rightarrow> bridge"
where
  "unregister_site sid b =
     (case map_of (sites b) sid of
        None \<Rightarrow> b
      | Some s \<Rightarrow>
          let b1 = b\<lparr>routing_table := purge sid (routing_table b)\<rparr>;
              b2 = b1\<lparr>sites := AList.delete sid (sites b1)\<rparr>
          in broadcast_loop (SiteLeft sid (name s)) (Some sid) (sites b2) b2)"
| "broadcast_loop w exclude [] b = b"
| "broadcast_loop w exclude ((sid, s) # rest) b =
     (if Some sid \<noteq> exclude then
        (if send_raises (websocket s) b
         then broadcast_loop w exclude rest (unregister_site sid (send (websocket s) w b))
         else broadcast_loop w exclude rest (send (websocket s) w b))
      else broadcast_loop w exclude rest b)"
  by pat_completeness auto

text \<open>
  Termination: unregistering a registered site shortens \<open>sites\<close>, and nothing in the
  two functions lengthens it, so the loop continues on a registry that is no longer.
\<close>

lemma length_delete_less:
  "map_of xs k = Some v \<Longrightarrow> length (AList.delete k xs) < length xs"
  by (induction xs) (auto simp: less_Suc_eq_le AList.delete_eq split: if_splits)

lemma sites_send [simp]: "sites (send ws w b) = sites b"
  by (simp add: send_def)

lemma sites_le_dom:
  "unregister_site_broadcast_loop_dom (Inl (sid, b)) \<Longrightarrow>
     length (sites (unregister_site sid b)) \<le> length (sites b)"
  "unregister_site_broadcast_loop_dom (Inr (w, ex, xs, b)) \<Longrightarrow>
     length (sites (broadcast_loop w ex xs b)) \<le> length (sites b)"
proof (induction sid b and w ex xs b rule: unregister_site_broadcast_loop.pinduct)
  case (1 sid b)
  show ?case
  proof (cases "map_of (sites b) sid")
    case None
    with 1(1) show ?thesis by (simp add: unregister_site.psimps)
  next
    case (Some s)
    from 1(2)[OF Some refl refl] length_delete_less[OF Some]
    show ?thesis using 1(1) Some by (simp add: unregister_site.psimps)
  qed
next
  case (2 w exclude b)
  then show ?case by (simp add: broadcast_loop.psimps)
next
  case (3 w exclude sid s rest b)
  show ?case
  proof (cases "Some sid \<noteq> exclude")
    case False
    with 3(1) 3(5) show ?thesis by (simp add: broadcast_loop.psimps)
  next
    case True
    show ?thesis
    proof (cases "send_raises (websocket s) b")
      case False
      with 3(1) 3(4)[OF True False] True show ?thesis
        by (simp add: broadcast_loop.psimps)
    next
      case raises: True
      from 3(2)[OF True raises] 3(3)[OF True raises] 3(1) True raises show ?thesis
        by (simp add: broadcast_loop.psimps)
    qed
  qed
qed

termination unregister_site
proof (relation "measures
    [\<lambda>x. case x of Inl (sid, b) \<Rightarrow> length (sites b) | Inr (w, ex, xs, b) \<Rightarrow> length (sites b),
     \<lambda>x. case x of Inl (sid, b) \<Rightarrow> 0 | Inr (w, ex, xs, b) \<Rightarrow> Suc (length xs)]", goal_cases)
  case 1
  show ?case by simp
next
  case (2 sid b s b1 b2)
  then show ?case by (simp add: length_delete_less)
next
  case (3 w exclude sid s rest b)
  then show ?case by simp
next
  case (4 w exclude sid s rest b)
  from sites_le_dom(1)[OF 4(3)] show ?case by auto
next
  case (5 w exclude sid s rest b)
  then show ?case by simp
next
  case (6 w exclude sid s rest b)
  then show ?case by simp
qed

text \<open>\<open>broadcast\<close>: the loop over a snapshot of the registry taken at the call.\<close>

definition broadcast :: "wire \<Rightarrow> string option \<Rightarrow> bridge \<Rightarrow> bridge" where
  "broadcast w exclude b = broadcast_loop w exclude (sites b) b"

definition broadcast_site_update :: "bridge \<Rightarrow> bridge" where
  "broadcast_site_update b =
     (let sites_info = map (\<lambda>(sid, s). (take 16 sid, name s, card (nodes s), connected_at s)) (sites b)
      in broadcast (SitesUpdate sites_info (length (sites b))) None b)"

subsection \<open>Registering and relaying\<close>

text \<open>The constructor call \<open>Site(site_id=..., websocket=..., name=name or f"Site-{site_id[:8]}")\<close>.\<close>

definition new_site :: "nat \<Rightarrow> string \<Rightarrow> string \<Rightarrow> time \<Rightarrow> site" where
  "new_site ws sid nm now =
     \<lparr> site_id = sid, websocket = ws,
       name = (if nm \<noteq> [] then nm else ''Site-'' @ take 8 sid),
       nodes = {}, connected_at = now, last_heartbeat = now,
       messages_relayed = 0, bytes_relayed = 0 \<rparr>"

definition register_site :: "nat \<Rightarrow> string \<Rightarrow> string \<Rightarrow> time \<Rightarrow> bridge \<Rightarrow> site \<times> bridge" where
  "register_site ws sid nm now b =
     (let s = new_site ws sid nm now;
          b1 = b\<lparr>sites := AList.update sid s (sites b)\<rparr>
      in (s, broadcast_site_update b1))"

text \<open>
  \<open>relay_to_site\<close>; \<open>dumps\<close> is \<open>json.dumps\<close>, of which the code uses the length. The
  counters are those of the target's record, and they are reached only when the send
  did not raise.
\<close>

definition relay_to_site :: "(wire \<Rightarrow> string) \<Rightarrow> string \<Rightarrow> wire \<Rightarrow> bridge \<Rightarrow> bool \<times> bridge" where
  "relay_to_site dumps target_site_id w b =
     (case map_of (sites b) target_site_id of
        None \<Rightarrow> (False, b)
      | Some s \<Rightarrow>
          if send_raises (websocket s) b
          then (False, unregister_site target_site_id (send (websocket s) w b))
          else
            (let b1 = send (websocket s) w b;
                 s1 = s\<lparr>messages_relayed := messages_relayed s + 1\<rparr>;
                 s2 = s1\<lparr>bytes_relayed := bytes_relayed s1 + int (length (dumps w))\<rparr>
             in (True, b1\<lparr>sites := AList.update target_site_id s2 (sites b1)\<rparr>)))"

subsection \<open>Deduplication and routing\<close>

text \<open>
  \<open>deduplicate_message\<close>; \<open>msg_hash\<close> is the first 16 hex digits of the SHA-256 of the
  message dumped with sorted keys, \<open>now\<close> is \<open>time.time()\<close>. The result is \<open>True\<close> for a
  new message.
\<close>

definition deduplicate_message :: "(message \<Rightarrow> string) \<Rightarrow> time \<Rightarrow> message \<Rightarrow> bridge \<Rightarrow> bool \<times> bridge" where
  "deduplicate_message msg_hash now m b =
     (let h = msg_hash m;
          seen = (\<lambda>k. case seen_messages b k of None \<Rightarrow> None
                      | Some t \<Rightarrow> if now - t < message_ttl b then Some t else None);
          b1 = b\<lparr>seen_messages := seen\<rparr>
      in if seen_messages b1 h \<noteq> None then (False, b1)
         else (True, b1\<lparr>seen_messages := (seen_messages b1)(h \<mapsto> now)\<rparr>))"

definition update_routing :: "string \<Rightarrow> string list \<Rightarrow> bridge \<Rightarrow> bridge" where
  "update_routing sid node_list b =
     (let b1 = b\<lparr>routing_table := fold (\<lambda>node rt. rt(node \<mapsto> sid)) node_list (routing_table b)\<rparr>
      in case map_of (sites b1) sid of
           None \<Rightarrow> b1
         | Some s \<Rightarrow> b1\<lparr>sites := AList.update sid (s\<lparr>nodes := set node_list\<rparr>) (sites b1)\<rparr>)"

definition find_route :: "string \<Rightarrow> bridge \<Rightarrow> string option" where
  "find_route dest_node b = routing_table b dest_node"

subsection \<open>Handling one message of a registered connection\<close>

text \<open>
  A call either returns or raises; the bridge as the call left it is returned beside
  that, since what was assigned before a \<open>raise\<close> stays assigned.
\<close>

datatype error = KeyError string

datatype outcome = Returned | Raised error

text \<open>
  \<open>handle_message\<close>. The only statement that can raise is the lookup
  \<open>self.sites[site_id].name\<close> in the print of the \<open>nodes_update\<close> branch; every send is
  inside a \<open>try\<close>. \<open>if dest:\<close> and \<open>if target_site and ...\<close> test for a present, non-empty
  string.
\<close>

definition handle_message ::
  "(wire \<Rightarrow> string) \<Rightarrow> (message \<Rightarrow> string) \<Rightarrow> time \<Rightarrow> string \<Rightarrow> message \<Rightarrow> bridge \<Rightarrow> outcome \<times> bridge"
where
  "handle_message dumps msg_hash now sid m b =
     (let mt = get_default [] (msg_type m) in
      if mt = ''heartbeat'' then
        (case map_of (sites b) sid of
           None \<Rightarrow> (Returned, b)
         | Some s \<Rightarrow> (Returned, b\<lparr>sites := AList.update sid (s\<lparr>last_heartbeat := now\<rparr>) (sites b)\<rparr>))
      else if mt = ''nodes_update'' then
        (let node_list = get_default [] (msg_nodes m);
             b1 = update_routing sid node_list b
         in case map_of (sites b1) sid of
              None \<Rightarrow> (Raised (KeyError sid), b1)
            | Some s \<Rightarrow> (Returned, b1))
      else if mt = ''mesh_message'' then
        (case deduplicate_message msg_hash now m b of
           (False, b1) \<Rightarrow> (Returned, b1)
         | (True, b1) \<Rightarrow>
             (let b2 = b1\<lparr>total_messages := total_messages b1 + 1\<rparr> in
              case msg_dest m of
                None \<Rightarrow> (Returned, broadcast (Relayed m) (Some sid) b2)
              | Some dest \<Rightarrow>
                  if dest \<noteq> [] then
                    (case find_route dest b2 of
                       None \<Rightarrow> (Returned, broadcast (Relayed m) (Some sid) b2)
                     | Some target_site \<Rightarrow>
                         if target_site \<noteq> [] \<and> target_site \<noteq> sid
                         then (Returned, snd (relay_to_site dumps target_site (Relayed m) b2))
                         else (Returned, broadcast (Relayed m) (Some sid) b2))
                  else (Returned, broadcast (Relayed m) (Some sid) b2)))
      else if mt = ''query_sites'' then
        (let sites_list = map (\<lambda>(k, s). (take 16 k, name s, card (nodes s))) (sites b)
         in (Returned, snd (relay_to_site dumps sid (SitesList sites_list) b)))
      else
        (case deduplicate_message msg_hash now m b of
           (True, b1) \<Rightarrow> (Returned, broadcast (Relayed m) (Some sid) b1)
         | (False, b1) \<Rightarrow> (Returned, b1)))"

subsection \<open>The connection handler\<close>

text \<open>
  One frame read from a websocket: its length, and the JSON object it decodes to
  (\<open>None\<close> when \<open>json.loads\<close> raises \<open>JSONDecodeError\<close>).
\<close>

record frame =
  raw_length :: nat
  decoded :: "message option"

text \<open>
  How one pass through the body of the \<open>async for\<close> loop of \<open>handler\<close> ends: with the
  next iteration (\<open>continue\<close> or the end of the body), with \<open>return\<close>, with a
  \<open>ConnectionClosed\<close> that the handler's \<open>except\<close> swallows, or with an exception that
  leaves the handler.
\<close>

datatype control = Continue | Return | Caught_ConnectionClosed | Propagate error

text \<open>
  The loop body, for the websocket \<open>ws\<close> and the handler's local \<open>site_id\<close>, which is
  returned as the body left it. In the \<open>register\<close> branch \<open>site_id\<close> is assigned before
  it is tested.
\<close>

definition handler_body ::
  "(wire \<Rightarrow> string) \<Rightarrow> (message \<Rightarrow> string) \<Rightarrow> time \<Rightarrow> nat \<Rightarrow> string option \<Rightarrow> frame \<Rightarrow> bridge
     \<Rightarrow> control \<times> string option \<times> bridge"
where
  "handler_body dumps msg_hash now ws local_site_id fr b =
     (case decoded fr of
        None \<Rightarrow> (Continue, local_site_id, b)
      | Some m \<Rightarrow>
          (case local_site_id of
             None \<Rightarrow>
               if msg_type m = Some ''register'' then
                 (case msg_site_id m of
                    None \<Rightarrow>
                      (if send_raises ws b then Caught_ConnectionClosed else Return,
                       None, send ws (ErrorMsg ''site_id required'') b)
                  | Some sid \<Rightarrow>
                      if sid = [] then
                        (if send_raises ws b then Caught_ConnectionClosed else Return,
                         Some sid, send ws (ErrorMsg ''site_id required'') b)
                      else
                        (let b1 = snd (register_site ws sid (get_default [] (msg_name m)) now b);
                             b2 = send ws (Registered sid ''Welcome to LNK-22 WAN Bridge'') b1
                         in if send_raises ws b1 then (Caught_ConnectionClosed, Some sid, b2)
                            else
                              (let others = map (\<lambda>(k, s). (take 16 k, name s, card (nodes s)))
                                              (filter (\<lambda>(k, s). k \<noteq> sid) (sites b2));
                                   b3 = send ws (SitesList others) b2
                               in if send_raises ws b2 then (Caught_ConnectionClosed, Some sid, b3)
                                  else (Continue, Some sid, b3))))
               else
                 (if send_raises ws b then Caught_ConnectionClosed else Continue,
                  None, send ws (ErrorMsg ''Must register first'') b)
           | Some sid \<Rightarrow>
               (case handle_message dumps msg_hash now sid m b of
                  (Raised e, b1) \<Rightarrow> (Propagate e, Some sid, b1)
                | (Returned, b1) \<Rightarrow>
                    (Continue, Some sid, b1\<lparr>total_bytes := total_bytes b1 + int (raw_length fr)\<rparr>))))"

text \<open>The \<open>finally\<close> clause: \<open>if site_id: await bridge.unregister_site(site_id)\<close>.\<close>

definition handler_finally :: "string option \<Rightarrow> bridge \<Rightarrow> bridge" where
  "handler_finally local_site_id b =
     (case local_site_id of
        None \<Rightarrow> b
      | Some sid \<Rightarrow> if sid \<noteq> [] then unregister_site sid b else b)"

text \<open>
  The handler of a connection is either waiting for its next frame, with its local
  \<open>site_id\<close>, or over: it has returned, or an exception has left it.
\<close>

datatype connection = Open "string option" | Finished | Failed error

text \<open>One frame arrives on an open connection.\<close>

definition handler_frame ::
  "(wire \<Rightarrow> string) \<Rightarrow> (message \<Rightarrow> string) \<Rightarrow> time \<Rightarrow> nat \<Rightarrow> string option \<Rightarrow> frame \<Rightarrow> bridge
     \<Rightarrow> connection \<times> bridge"
where
  "handler_frame dumps msg_hash now ws local_site_id fr b =
     (case handler_body dumps msg_hash now ws local_site_id fr b of
        (Continue, sid', b1) \<Rightarrow> (Open sid', b1)
      | (Return, sid', b1) \<Rightarrow> (Finished, handler_finally sid' b1)
      | (Caught_ConnectionClosed, sid', b1) \<Rightarrow> (Finished, handler_finally sid' b1)
      | (Propagate e, sid', b1) \<Rightarrow> (Failed e, handler_finally sid' b1))"

text \<open>The peer closes the connection: the \<open>async for\<close> raises \<open>ConnectionClosed\<close>.\<close>

definition handler_closed :: "string option \<Rightarrow> bridge \<Rightarrow> connection \<times> bridge" where
  "handler_closed local_site_id b = (Finished, handler_finally local_site_id b)"

subsection \<open>The heartbeat checker\<close>

text \<open>
  One pass of \<open>heartbeat_checker\<close> after its \<open>sleep(30)\<close>: the loop over the snapshot
  \<open>list(bridge.sites.items())\<close>, at the clock reading \<open>now\<close>.
\<close>

fun heartbeat_loop :: "time \<Rightarrow> (string \<times> site) list \<Rightarrow> bridge \<Rightarrow> bridge" where
  "heartbeat_loop now [] b = b"
| "heartbeat_loop now ((sid, s) # rest) b =
     (if now - last_heartbeat s > 90
      then heartbeat_loop now rest (unregister_site sid b)
      else heartbeat_loop now rest b)"

definition heartbeat_check :: "time \<Rightarrow> bridge \<Rightarrow> bridge" where
  "heartbeat_check now b = heartbeat_loop now (sites b) b"

text \<open>
  \<open>heartbeat_checker\<close> itself: \<open>while True\<close>, sleep 30 seconds, read the clock, make the
  pass. The loop never returns, so the model is its first \<open>k\<close> iterations from the clock
  reading \<open>clock\<close>, with the clock and the bridge after them; a sleep moves the clock by
  the 30 seconds it asks for, and the time the pass itself takes is not counted.
\<close>

fun heartbeat_checker :: "nat \<Rightarrow> time \<Rightarrow> bridge \<Rightarrow> time \<times> bridge" where
  "heartbeat_checker 0 clock b = (clock, b)"
| "heartbeat_checker (Suc k) clock b =
     heartbeat_checker k (clock + 30) (heartbeat_check (clock + 30) b)"
section \<open>What unregistering and broadcasting change\<close>

text \<open>
  \<open>registered\<close> are the keys of \<open>sites\<close> (\<open>site_id in self.sites\<close>); \<open>delta b b'\<close> is what
  was sent between the bridge \<open>b\<close> and a later bridge \<open>b'\<close>; \<open>without_site\<close> is the bridge
  after the two assignments of \<open>unregister_site\<close> that precede its broadcast.
\<close>

declare unregister_site.simps [simp del]

definition registered :: "bridge \<Rightarrow> string set" where
  "registered b = fst ` set (sites b)"

definition delta :: "bridge \<Rightarrow> bridge \<Rightarrow> (nat \<times> wire) list" where
  "delta b b' = drop (length (sent b)) (sent b')"

definition without_site :: "string \<Rightarrow> bridge \<Rightarrow> bridge" where
  "without_site sid b =
     b\<lparr>routing_table := purge sid (routing_table b), sites := AList.delete sid (sites b)\<rparr>"

lemma get_default_simps [simp]: "get_default d None = d" "get_default d (Some x) = x"
  by (simp_all add: get_default_def)

lemma map_of_registered: "(map_of (sites b) sid = None) = (sid \<notin> registered b)"
  by (simp add: registered_def map_of_eq_None_iff)

lemma map_of_in_registered: "map_of (sites b) sid = Some s \<Longrightarrow> sid \<in> registered b"
  using map_of_registered[of b sid] by auto

lemma registered_send [simp]: "registered (send ws w b) = registered b"
  by (simp add: registered_def)

lemma closed_send [simp]: "closed (send ws w b) = closed b"
  by (simp add: send_def)

lemma routing_table_send [simp]: "routing_table (send ws w b) = routing_table b"
  by (simp add: send_def)

lemma sent_send [simp]: "sent (send ws w b) = sent b @ [(ws, w)]"
  by (simp add: send_def)

lemma without_site_fields [simp]:
  "sites (without_site sid b) = AList.delete sid (sites b)"
  "routing_table (without_site sid b) = purge sid (routing_table b)"
  "sent (without_site sid b) = sent b"
  "closed (without_site sid b) = closed b"
  by (simp_all add: without_site_def)

lemma registered_without_site [simp]: "registered (without_site sid b) = registered b - {sid}"
  by (auto simp: registered_def AList.delete_eq)

lemma unregister_site_absent: "sid \<notin> registered b \<Longrightarrow> unregister_site sid b = b"
  by (simp add: unregister_site.simps map_of_registered[symmetric])

lemma unregister_site_present:
  "map_of (sites b) sid = Some s \<Longrightarrow>
   unregister_site sid b =
     broadcast_loop (SiteLeft sid (name s)) (Some sid) (sites (without_site sid b)) (without_site sid b)"
  by (simp add: unregister_site.simps without_site_def)

lemma broadcast_loop_skip:
  "broadcast_loop w (Some sid) ((sid, s) # rest) b = broadcast_loop w (Some sid) rest b"
  by simp

lemma broadcast_loop_raises:
  "Some sid \<noteq> ex \<Longrightarrow> websocket s \<in> closed b \<Longrightarrow>
   broadcast_loop w ex ((sid, s) # rest) b =
     broadcast_loop w ex rest (unregister_site sid (send (websocket s) w b))"
  by (simp add: send_raises_def)

lemma broadcast_loop_sends:
  "Some sid \<noteq> ex \<Longrightarrow> websocket s \<notin> closed b \<Longrightarrow>
   broadcast_loop w ex ((sid, s) # rest) b = broadcast_loop w ex rest (send (websocket s) w b)"
  by (simp add: send_raises_def)

declare broadcast_loop.simps(2) [simp del]

text \<open>
  The induction rule of the two functions, with one case for each path through them: the
  site is not registered, it is; the snapshot is empty, its first site is the excluded
  one, the send to it raises, the send to it goes through.
\<close>

lemma unregister_broadcast_induct [case_names absent present nil skip raises sends]:
  assumes absent: "\<And>sid b. sid \<notin> registered b \<Longrightarrow> P sid b"
    and present: "\<And>sid b s. map_of (sites b) sid = Some s \<Longrightarrow>
          Q (SiteLeft sid (name s)) (Some sid) (sites (without_site sid b)) (without_site sid b) \<Longrightarrow>
          P sid b"
    and nil: "\<And>w ex b. Q w ex [] b"
    and skip: "\<And>w sid s rest b. Q w (Some sid) rest b \<Longrightarrow> Q w (Some sid) ((sid, s) # rest) b"
    and raises: "\<And>w ex sid s rest b. Some sid \<noteq> ex \<Longrightarrow> websocket s \<in> closed b \<Longrightarrow>
          P sid (send (websocket s) w b) \<Longrightarrow>
          Q w ex rest (unregister_site sid (send (websocket s) w b)) \<Longrightarrow>
          Q w ex ((sid, s) # rest) b"
    and sends: "\<And>w ex sid s rest b. Some sid \<noteq> ex \<Longrightarrow> websocket s \<notin> closed b \<Longrightarrow>
          Q w ex rest (send (websocket s) w b) \<Longrightarrow> Q w ex ((sid, s) # rest) b"
  shows "P sid b" and "Q w ex xs b"
proof (induction sid b and w ex xs b rule: unregister_site_broadcast_loop.induct)
  case (1 sid b)
  show ?case
  proof (cases "map_of (sites b) sid")
    case None
    then show ?thesis by (simp add: absent map_of_registered)
  next
    case (Some s)
    from 1[OF Some refl refl]
    have "Q (SiteLeft sid (name s)) (Some sid) (sites (without_site sid b)) (without_site sid b)"
      by (simp add: without_site_def)
    with Some show ?thesis by (rule present)
  qed
next
  case (2 w exclude b)
  show ?case by (rule nil)
next
  case (3 w exclude sid s rest b)
  show ?case
  proof (cases "Some sid \<noteq> exclude")
    case False
    with 3(4) skip show ?thesis by auto
  next
    case True
    show ?thesis
    proof (cases "send_raises (websocket s) b")
      case False
      with 3(3)[OF True False] True show ?thesis by (auto intro: sends simp: send_raises_def)
    next
      case raises': True
      with 3(1)[OF True raises'] 3(2)[OF True raises'] True show ?thesis
        by (auto intro: raises simp: send_raises_def)
    qed
  qed
qed

subsection \<open>Fields that stay\<close>

lemma frame_fields:
  "closed (unregister_site sid b) = closed b \<and> seen_messages (unregister_site sid b) = seen_messages b
   \<and> message_ttl (unregister_site sid b) = message_ttl b
   \<and> total_messages (unregister_site sid b) = total_messages b
   \<and> total_bytes (unregister_site sid b) = total_bytes b
   \<and> start_time (unregister_site sid b) = start_time b"
  "closed (broadcast_loop w ex xs b) = closed b \<and> seen_messages (broadcast_loop w ex xs b) = seen_messages b
   \<and> message_ttl (broadcast_loop w ex xs b) = message_ttl b
   \<and> total_messages (broadcast_loop w ex xs b) = total_messages b
   \<and> total_bytes (broadcast_loop w ex xs b) = total_bytes b
   \<and> start_time (broadcast_loop w ex xs b) = start_time b"
proof (induction sid b and w ex xs b rule: unregister_broadcast_induct)
  case (absent sid b)
  then show ?case by (simp add: unregister_site_absent)
next
  case (present sid b s)
  then show ?case by (simp add: unregister_site_present without_site_def)
next
  case (nil w ex b)
  show ?case by simp
next
  case (skip w sid s rest b)
  then show ?case by (simp add: broadcast_loop_skip)
next
  case (raises w ex sid s rest b)
  then show ?case by (simp add: broadcast_loop_raises send_def)
next
  case (sends w ex sid s rest b)
  then show ?case by (simp add: broadcast_loop_sends send_def)
qed

lemma closed_unregister_site [simp]: "closed (unregister_site sid b) = closed b"
  by (simp add: frame_fields)

lemma closed_broadcast_loop [simp]: "closed (broadcast_loop w ex xs b) = closed b"
  by (simp add: frame_fields)

subsection \<open>The registry only shrinks\<close>

definition sub_registry :: "bridge \<Rightarrow> bridge \<Rightarrow> bool" where
  "sub_registry b b' = (sites b' = filter (\<lambda>p. fst p \<in> registered b') (sites b))"

lemma sub_registry_refl: "sub_registry b b"
  by (simp add: sub_registry_def registered_def)

lemma sub_registry_subset: "sub_registry b b' \<Longrightarrow> registered b' \<subseteq> registered b"
  unfolding sub_registry_def registered_def
  by (metis (no_types, lifting) filter_is_subset image_mono)

lemma sub_registry_set: "sub_registry b b' \<Longrightarrow> set (sites b') \<subseteq> set (sites b)"
  unfolding sub_registry_def by (metis filter_is_subset)

lemma map_of_filter_keys:
  "map_of (filter (\<lambda>p. fst p \<in> K) xs) k = (if k \<in> K then map_of xs k else None)"
  by (induction xs) auto

lemma sub_registry_map_of:
  assumes "sub_registry b b'"
  shows "map_of (sites b') k = (if k \<in> registered b' then map_of (sites b) k else None)"
proof -
  from assms have "sites b' = filter (\<lambda>p. fst p \<in> registered b') (sites b)"
    by (simp add: sub_registry_def)
  then show ?thesis using map_of_filter_keys[of "registered b'" "sites b" k] by simp
qed

lemma sub_registry_trans:
  assumes "sub_registry b b'" "sub_registry b' b''"
  shows "sub_registry b b''"
proof -
  have "registered b'' \<subseteq> registered b'" using assms(2) by (rule sub_registry_subset)
  then have "filter (\<lambda>p. fst p \<in> registered b'') (filter (\<lambda>p. fst p \<in> registered b') (sites b))
        = filter (\<lambda>p. fst p \<in> registered b'') (sites b)"
    by (auto intro: filter_cong)
  with assms show ?thesis by (simp add: sub_registry_def)
qed

lemma sub_registry_without_site: "sub_registry b (without_site sid b)"
  unfolding sub_registry_def
  by (auto simp: AList.delete_eq registered_def intro!: filter_cong)

lemma sub_registry_send: "sub_registry b (send ws w b)"
  by (simp add: sub_registry_def registered_def)

lemma sub_registry_unregister:
  "sub_registry b (unregister_site sid b)"
  "sub_registry b (broadcast_loop w ex xs b)"
proof (induction sid b and w ex xs b rule: unregister_broadcast_induct)
  case (absent sid b)
  then show ?case by (simp add: unregister_site_absent sub_registry_refl)
next
  case (present sid b s)
  from sub_registry_without_site present(2) show ?case
    unfolding unregister_site_present[OF present(1)] by (rule sub_registry_trans)
next
  case (nil w ex b)
  show ?case by (simp add: sub_registry_refl)
next
  case (skip w sid s rest b)
  then show ?case by (simp add: broadcast_loop_skip)
next
  case (raises w ex sid s rest b)
  have "sub_registry b (unregister_site sid (send (websocket s) w b))"
    using sub_registry_send raises(3) by (rule sub_registry_trans)
  then show ?case
    unfolding broadcast_loop_raises[OF raises(1,2)] using raises(4) by (rule sub_registry_trans)
next
  case (sends w ex sid s rest b)
  from sub_registry_send sends(3) show ?case
    unfolding broadcast_loop_sends[OF sends(1,2)] by (rule sub_registry_trans)
qed

lemma registered_unregister_site: "registered (unregister_site sid b) \<subseteq> registered b"
  by (rule sub_registry_subset[OF sub_registry_unregister(1)])

lemma registered_broadcast_loop: "registered (broadcast_loop w ex xs b) \<subseteq> registered b"
  by (rule sub_registry_subset[OF sub_registry_unregister(2)])

lemma unregister_site_removes: "sid \<notin> registered (unregister_site sid b)"
proof (cases "map_of (sites b) sid")
  case None
  then show ?thesis by (simp add: unregister_site_absent map_of_registered)
next
  case (Some s)
  have "registered (unregister_site sid b) \<subseteq> registered (without_site sid b)"
    unfolding unregister_site_present[OF Some] by (rule registered_broadcast_loop)
  then show ?thesis by auto
qed

subsection \<open>Routes of removed sites are purged\<close>

lemma routing_unregister:
  "routing_table (unregister_site sid b) n =
     (case routing_table b n of None \<Rightarrow> None
      | Some owner \<Rightarrow>
          if owner \<in> registered b \<and> owner \<notin> registered (unregister_site sid b) then None
          else Some owner)"
  "routing_table (broadcast_loop w ex xs b) n =
     (case routing_table b n of None \<Rightarrow> None
      | Some owner \<Rightarrow>
          if owner \<in> registered b \<and> owner \<notin> registered (broadcast_loop w ex xs b) then None
          else Some owner)"
proof (induction sid b and w ex xs b rule: unregister_broadcast_induct)
  case (absent sid b)
  then show ?case by (simp add: unregister_site_absent split: option.splits)
next
  case (present sid b s)
  have "registered (unregister_site sid b) \<subseteq> registered b - {sid}"
    unfolding unregister_site_present[OF present(1)]
    using registered_broadcast_loop[of _ _ _ "without_site sid b"] by simp
  moreover have "sid \<in> registered b" using present(1) by (rule map_of_in_registered)
  ultimately show ?case
    using present(2) unfolding unregister_site_present[OF present(1)]
    by (auto simp: purge_def split: option.splits)
next
  case (nil w ex b)
  show ?case by (simp split: option.splits)
next
  case (skip w sid s rest b)
  then show ?case unfolding broadcast_loop_skip .
next
  case (raises w ex sid s rest b)
  let ?b2 = "unregister_site sid (send (websocket s) w b)"
  have s1: "registered ?b2 \<subseteq> registered b"
    using registered_unregister_site[of sid "send (websocket s) w b"] by simp
  have s2: "registered (broadcast_loop w ex rest ?b2) \<subseteq> registered ?b2"
    by (rule registered_broadcast_loop)
  show ?case unfolding broadcast_loop_raises[OF raises(1,2)]
    using raises(3,4) s1 s2 by (auto split: option.splits)
next
  case (sends w ex sid s rest b)
  then show ?case unfolding broadcast_loop_sends[OF sends(1,2)] by (simp split: option.splits)
qed

subsection \<open>The log only grows\<close>

definition extends :: "bridge \<Rightarrow> bridge \<Rightarrow> bool" where
  "extends b b' = (\<exists>new. sent b' = sent b @ new)"

lemma extends_refl: "extends b b"
  by (simp add: extends_def)

lemma extends_trans: "extends b b' \<Longrightarrow> extends b' b'' \<Longrightarrow> extends b b''"
  by (auto simp: extends_def)

lemma extends_delta: "extends b b' \<Longrightarrow> sent b' = sent b @ delta b b'"
  by (auto simp: extends_def delta_def)

lemma delta_refl [simp]: "delta b b = []"
  by (simp add: delta_def)

lemma delta_trans:
  "extends b b' \<Longrightarrow> extends b' b'' \<Longrightarrow> delta b b'' = delta b b' @ delta b' b''"
  by (auto simp: extends_def delta_def)

lemma delta_cong: "sent b1 = sent b2 \<Longrightarrow> delta b1 b' = delta b2 b'"
  by (simp add: delta_def)

lemma extends_cong: "sent b1 = sent b2 \<Longrightarrow> extends b1 b' = extends b2 b'"
  by (simp add: extends_def)

lemma extends_send: "extends b (send ws w b)"
  by (simp add: extends_def)

lemma delta_send [simp]: "delta b (send ws w b) = [(ws, w)]"
  by (simp add: delta_def)

lemma extends_unregister:
  "extends b (unregister_site sid b)"
  "extends b (broadcast_loop w ex xs b)"
proof (induction sid b and w ex xs b rule: unregister_broadcast_induct)
  case (absent sid b)
  then show ?case by (simp add: unregister_site_absent extends_refl)
next
  case (present sid b s)
  then show ?case unfolding unregister_site_present[OF present(1)]
    by (simp add: extends_cong[of b "without_site sid b"])
next
  case (nil w ex b)
  show ?case by (simp add: extends_refl)
next
  case (skip w sid s rest b)
  then show ?case by (simp add: broadcast_loop_skip)
next
  case (raises w ex sid s rest b)
  show ?case unfolding broadcast_loop_raises[OF raises(1,2)]
    using extends_send raises(3,4) by (blast intro: extends_trans)
next
  case (sends w ex sid s rest b)
  show ?case unfolding broadcast_loop_sends[OF sends(1,2)]
    using extends_send sends(3) by (blast intro: extends_trans)
qed

lemma delta_raises:
  "delta b (broadcast_loop w ex rest (unregister_site sid (send ws w b))) =
     (ws, w) # delta (send ws w b) (unregister_site sid (send ws w b))
       @ delta (unregister_site sid (send ws w b))
           (broadcast_loop w ex rest (unregister_site sid (send ws w b)))"
proof -
  let ?b1 = "send ws w b"
  let ?b2 = "unregister_site sid ?b1"
  let ?b3 = "broadcast_loop w ex rest ?b2"
  have "delta b ?b3 = delta b ?b1 @ delta ?b1 ?b3"
    by (rule delta_trans[OF extends_send]) (blast intro: extends_trans extends_unregister)
  also have "delta ?b1 ?b3 = delta ?b1 ?b2 @ delta ?b2 ?b3"
    by (rule delta_trans[OF extends_unregister(1) extends_unregister(2)])
  finally show ?thesis by simp
qed

lemma delta_sends:
  "delta b (broadcast_loop w ex rest (send ws w b)) =
     (ws, w) # delta (send ws w b) (broadcast_loop w ex rest (send ws w b))"
proof -
  have "delta b (broadcast_loop w ex rest (send ws w b))
      = delta b (send ws w b) @ delta (send ws w b) (broadcast_loop w ex rest (send ws w b))"
    by (rule delta_trans[OF extends_send extends_unregister(2)])
  then show ?thesis by simp
qed

subsection \<open>Where a sent message comes from\<close>

text \<open>
  Unregistering sends nothing but \<open>site_left\<close> messages, each naming a site that was
  registered before and is not after, with the name it had. The broadcast loop sends,
  besides, its own message, and that only to sites of its snapshot other than the
  excluded one.
\<close>

lemma delta_origin:
  "(ws, w') \<in> set (delta b (unregister_site sid b)) \<Longrightarrow>
     \<exists>X x. w' = SiteLeft X (name x) \<and> map_of (sites b) X = Some x
           \<and> X \<notin> registered (unregister_site sid b)"
  "(ws, w') \<in> set (delta b (broadcast_loop w ex xs b)) \<Longrightarrow>
     (w' = w \<and> (\<exists>k s. (k, s) \<in> set xs \<and> Some k \<noteq> ex \<and> websocket s = ws))
     \<or> (\<exists>X x. w' = SiteLeft X (name x) \<and> map_of (sites b) X = Some x
           \<and> X \<notin> registered (broadcast_loop w ex xs b))"
proof (induction sid b and w ex xs b rule: unregister_broadcast_induct)
  case (absent sid b)
  then show ?case by (simp add: unregister_site_absent)
next
  case (present sid b s)
  let ?b2 = "without_site sid b"
  let ?b' = "broadcast_loop (SiteLeft sid (name s)) (Some sid) (sites ?b2) ?b2"
  have eq: "unregister_site sid b = ?b'" by (rule unregister_site_present[OF present(1)])
  from present(3) have "(ws, w') \<in> set (delta ?b2 ?b')"
    unfolding eq by (simp add: delta_cong[of ?b2 b])
  from present(2)[OF this] show ?case
  proof
    assume "w' = SiteLeft sid (name s) \<and> (\<exists>k s'. (k, s') \<in> set (sites ?b2) \<and> Some k \<noteq> Some sid \<and> websocket s' = ws)"
    then show ?thesis using present(1) unregister_site_removes[of sid b] by blast
  next
    assume "\<exists>X x. w' = SiteLeft X (name x) \<and> map_of (sites ?b2) X = Some x \<and> X \<notin> registered ?b'"
    then obtain X x where X: "w' = SiteLeft X (name x)" "map_of (sites ?b2) X = Some x" "X \<notin> registered ?b'"
      by blast
    from X(2) have "map_of (sites b) X = Some x"
      using sub_registry_map_of[OF sub_registry_without_site, of sid b X] by (simp split: if_splits)
    with X show ?thesis unfolding eq by blast
  qed
next
  case (nil w ex b)
  then show ?case by simp
next
  case (skip w sid s rest b)
  then show ?case unfolding broadcast_loop_skip by fastforce
next
  case (raises w ex sid s rest b)
  let ?b1 = "send (websocket s) w b"
  let ?b2 = "unregister_site sid ?b1"
  let ?b3 = "broadcast_loop w ex rest ?b2"
  have eq: "broadcast_loop w ex ((sid, s) # rest) b = ?b3" by (rule broadcast_loop_raises[OF raises(1,2)])
  have sub: "registered ?b3 \<subseteq> registered ?b2" by (rule registered_broadcast_loop)
  from raises(5) have "(ws, w') = (websocket s, w) \<or> (ws, w') \<in> set (delta ?b1 ?b2) \<or> (ws, w') \<in> set (delta ?b2 ?b3)"
    unfolding eq delta_raises by auto
  then show ?case
  proof (elim disjE)
    assume "(ws, w') = (websocket s, w)"
    then show ?thesis using raises(1) by auto
  next
    assume "(ws, w') \<in> set (delta ?b1 ?b2)"
    from raises(3)[OF this] obtain X x where
      "w' = SiteLeft X (name x)" "map_of (sites b) X = Some x" "X \<notin> registered ?b2" by auto
    then show ?thesis unfolding eq using sub by blast
  next
    assume "(ws, w') \<in> set (delta ?b2 ?b3)"
    from raises(4)[OF this] show ?thesis
    proof
      assume "w' = w \<and> (\<exists>k s. (k, s) \<in> set rest \<and> Some k \<noteq> ex \<and> websocket s = ws)"
      then show ?thesis by auto
    next
      assume "\<exists>X x. w' = SiteLeft X (name x) \<and> map_of (sites ?b2) X = Some x \<and> X \<notin> registered ?b3"
      then obtain X x where X: "w' = SiteLeft X (name x)" "map_of (sites ?b2) X = Some x" "X \<notin> registered ?b3"
        by blast
      from X(2) have "map_of (sites b) X = Some x"
        using sub_registry_map_of[OF sub_registry_unregister(1), of sid ?b1 X] by (simp split: if_splits)
      with X show ?thesis unfolding eq by blast
    qed
  qed
next
  case (sends w ex sid s rest b)
  let ?b1 = "send (websocket s) w b"
  let ?b3 = "broadcast_loop w ex rest ?b1"
  have eq: "broadcast_loop w ex ((sid, s) # rest) b = ?b3" by (rule broadcast_loop_sends[OF sends(1,2)])
  from sends(4) have "(ws, w') = (websocket s, w) \<or> (ws, w') \<in> set (delta ?b1 ?b3)"
    unfolding eq delta_sends by auto
  then show ?case
  proof
    assume "(ws, w') = (websocket s, w)"
    then show ?thesis using sends(1) by auto
  next
    assume "(ws, w') \<in> set (delta ?b1 ?b3)"
    from sends(3)[OF this] show ?thesis unfolding eq by auto
  qed
qed

subsection \<open>Which sites are removed\<close>

text \<open>
  A site is removed only when it is the one being unregistered, or when a send to a
  closed websocket of a site with its id raised.
\<close>

lemma removed_closed:
  "X \<in> registered b \<Longrightarrow> X \<notin> registered (unregister_site sid b) \<Longrightarrow>
     X = sid \<or> (\<exists>s. (X, s) \<in> set (sites b) \<and> websocket s \<in> closed b)"
  "X \<in> registered b \<Longrightarrow> X \<notin> registered (broadcast_loop w ex xs b) \<Longrightarrow>
     (\<exists>s. (X, s) \<in> set xs \<and> Some X \<noteq> ex \<and> websocket s \<in> closed b)
     \<or> (\<exists>s. (X, s) \<in> set (sites b) \<and> websocket s \<in> closed b)"
proof (induction sid b and w ex xs b rule: unregister_broadcast_induct)
  case (absent sid b)
  then show ?case by (simp add: unregister_site_absent)
next
  case (present sid b s)
  show ?case
  proof (cases "X = sid")
    case True
    then show ?thesis by simp
  next
    case False
    with present(3) have "X \<in> registered (without_site sid b)" by simp
    from present(2)[OF this] present(4)
    have "\<exists>s. (X, s) \<in> set (sites (without_site sid b)) \<and> websocket s \<in> closed b"
      unfolding unregister_site_present[OF present(1)] by auto
    then show ?thesis using sub_registry_set[OF sub_registry_without_site, of sid b] by auto
  qed
next
  case (nil w ex b)
  then show ?case by simp
next
  case (skip w sid s rest b)
  then show ?case unfolding broadcast_loop_skip by fastforce
next
  case (raises w ex sid s rest b)
  let ?b1 = "send (websocket s) w b"
  let ?b2 = "unregister_site sid ?b1"
  let ?b3 = "broadcast_loop w ex rest ?b2"
  have eq: "broadcast_loop w ex ((sid, s) # rest) b = ?b3" by (rule broadcast_loop_raises[OF raises(1,2)])
  show ?case
  proof (cases "X \<in> registered ?b2")
    case False
    with raises(3)[of] raises(5) have "X = sid \<or> (\<exists>s. (X, s) \<in> set (sites b) \<and> websocket s \<in> closed b)"
      by simp
    then show ?thesis using raises(1,2) by auto
  next
    case True
    from raises(4)[OF True] raises(6) have
      "(\<exists>s. (X, s) \<in> set rest \<and> Some X \<noteq> ex \<and> websocket s \<in> closed b)
       \<or> (\<exists>s. (X, s) \<in> set (sites ?b2) \<and> websocket s \<in> closed b)"
      unfolding eq by simp
    then show ?thesis using sub_registry_set[OF sub_registry_unregister(1), of sid ?b1] by auto
  qed
next
  case (sends w ex sid s rest b)
  then show ?case unfolding broadcast_loop_sends[OF sends(1,2)] by fastforce
qed

subsection \<open>Updating routes\<close>

lemma fold_routes:
  "fold (\<lambda>node rt. rt(node \<mapsto> sid)) node_list rt n = (if n \<in> set node_list then Some sid else rt n)"
  by (induction node_list arbitrary: rt) auto

lemma routing_table_update_routing:
  "routing_table (update_routing sid node_list b) n =
     (if n \<in> set node_list then Some sid else routing_table b n)"
  by (simp add: update_routing_def Let_def fold_routes split: option.splits)

lemma registered_update [simp]:
  "map_of xs k = Some v \<Longrightarrow> fst ` set (AList.update k v' xs) = fst ` set xs"
  by (induction xs) (auto split: if_splits)

lemma registered_update_routing [simp]:
  "registered (update_routing sid node_list b) = registered b"
  by (auto simp: update_routing_def Let_def registered_def split: option.splits)

subsection \<open>Deduplication touches the seen messages only\<close>

lemma deduplicate_message_fields [simp]:
  "sites (snd (deduplicate_message msg_hash now m b)) = sites b"
  "sent (snd (deduplicate_message msg_hash now m b)) = sent b"
  "closed (snd (deduplicate_message msg_hash now m b)) = closed b"
  "routing_table (snd (deduplicate_message msg_hash now m b)) = routing_table b"
  "total_messages (snd (deduplicate_message msg_hash now m b)) = total_messages b"
  "total_bytes (snd (deduplicate_message msg_hash now m b)) = total_bytes b"
  "message_ttl (snd (deduplicate_message msg_hash now m b)) = message_ttl b"
  by (simp_all add: deduplicate_message_def Let_def)

lemma registered_cong: "sites b = sites b' \<Longrightarrow> registered b = registered b'"
  by (simp add: registered_def)

subsection \<open>What a broadcast and a relay send\<close>

lemma delta_broadcast:
  assumes "(ws, w') \<in> set (delta b (broadcast w ex b))"
  shows "(w' = w \<and> (\<exists>k s. (k, s) \<in> set (sites b) \<and> Some k \<noteq> ex \<and> websocket s = ws))
     \<or> (\<exists>X x. w' = SiteLeft X (name x) \<and> map_of (sites b) X = Some x
           \<and> X \<notin> registered (broadcast w ex b))"
  using delta_origin(2)[of ws w' b w ex "sites b"] assms by (simp add: broadcast_def)

lemma delta_relay_to_site:
  assumes "(ws, w') \<in> set (delta b (snd (relay_to_site dumps target w b)))"
  shows "(w' = w \<and> (\<exists>s. map_of (sites b) target = Some s \<and> websocket s = ws))
     \<or> (\<exists>X x. w' = SiteLeft X (name x) \<and> map_of (sites b) X = Some x)"
proof (cases "map_of (sites b) target")
  case None
  with assms show ?thesis by (simp add: relay_to_site_def)
next
  case (Some s)
  show ?thesis
  proof (cases "websocket s \<in> closed b")
    case False
    with Some assms show ?thesis
      by (simp add: relay_to_site_def send_raises_def Let_def delta_def send_def)
  next
    case True
    let ?b1 = "send (websocket s) w b"
    have r: "snd (relay_to_site dumps target w b) = unregister_site target ?b1"
      using Some True by (simp add: relay_to_site_def send_raises_def)
    have "delta b (unregister_site target ?b1) = delta b ?b1 @ delta ?b1 (unregister_site target ?b1)"
      by (rule delta_trans[OF extends_send extends_unregister(1)])
    with assms r have "(ws, w') = (websocket s, w) \<or> (ws, w') \<in> set (delta ?b1 (unregister_site target ?b1))"
      by auto
    then show ?thesis
    proof
      assume "(ws, w') = (websocket s, w)"
      with Some show ?thesis by simp
    next
      assume "(ws, w') \<in> set (delta ?b1 (unregister_site target ?b1))"
      from delta_origin(1)[OF this] show ?thesis by auto
    qed
  qed
qed

text \<open>
  Everything \<open>handle_message\<close> sends: the message itself to websockets of registered
  sites other than the sender, a site list to the sender that asked for it, and
  \<open>site_left\<close> for sites that were registered.
\<close>

lemma delta_handle_message:
  assumes "(ws, w') \<in> set (delta b (snd (handle_message dumps msg_hash now sid m b)))"
  shows "(w' = Relayed m \<and> (\<exists>k s. (k, s) \<in> set (sites b) \<and> k \<noteq> sid \<and> websocket s = ws))
     \<or> ((\<exists>l. w' = SitesList l) \<and> msg_type m = Some ''query_sites''
          \<and> (\<exists>s. map_of (sites b) sid = Some s \<and> websocket s = ws))
     \<or> (\<exists>X x. w' = SiteLeft X (name x) \<and> map_of (sites b) X = Some x)"
proof -
  let ?mt = "get_default [] (msg_type m)"
  obtain r b1 where d: "deduplicate_message msg_hash now m b = (r, b1)" by force
  have b1: "sites b1 = sites b" "sent b1 = sent b"
    using deduplicate_message_fields(1,2)[of msg_hash now m b] d by simp_all
  have d1: "delta b c = delta b1 c" for c by (rule delta_cong) (simp add: b1)
  have bc: "?thesis" if "(ws, w') \<in> set (delta c (broadcast (Relayed m) (Some sid) c))"
    and "sites c = sites b" for c
    using delta_broadcast[OF that(1)] that(2) by auto
  have rl: "?thesis" if r1: "(ws, w') \<in> set (delta c (snd (relay_to_site dumps t (Relayed m) c)))"
    and r2: "sites c = sites b" and r3: "t \<noteq> sid" for c t
  proof -
    from delta_relay_to_site[OF r1] show ?thesis
    proof
      assume "w' = Relayed m \<and> (\<exists>s. map_of (sites c) t = Some s \<and> websocket s = ws)"
      then obtain s where "w' = Relayed m" "map_of (sites b) t = Some s" "websocket s = ws"
        using r2 by auto
      then have "w' = Relayed m \<and> (t, s) \<in> set (sites b) \<and> t \<noteq> sid \<and> websocket s = ws"
        using r3 by (auto dest: map_of_SomeD)
      then show ?thesis by blast
    next
      assume "\<exists>X x. w' = SiteLeft X (name x) \<and> map_of (sites c) X = Some x"
      then show ?thesis using r2 by auto
    qed
  qed
  consider (hb) "?mt = ''heartbeat''" | (nu) "?mt = ''nodes_update''" | (mm) "?mt = ''mesh_message''"
    | (qs) "?mt = ''query_sites''"
    | (other) "?mt \<noteq> ''heartbeat''" "?mt \<noteq> ''nodes_update''" "?mt \<noteq> ''mesh_message''" "?mt \<noteq> ''query_sites''"
    by blast
  then show ?thesis
  proof cases
    case hb
    with assms show ?thesis
      by (simp add: handle_message_def delta_def split: option.splits)
  next
    case nu
    with assms show ?thesis
      by (simp add: handle_message_def delta_def update_routing_def Let_def split: option.splits)
  next
    case mm
    show ?thesis
    proof (cases r)
      case False
      with assms mm d b1 show ?thesis by (simp add: handle_message_def delta_def)
    next
      case True
      let ?b2 = "b1\<lparr>total_messages := total_messages b1 + 1\<rparr>"
      have d2: "delta b c = delta ?b2 c" for c by (rule delta_cong) (simp add: b1)
      have s2: "sites ?b2 = sites b" by (simp add: b1)
      from assms have a: "(ws, w') \<in> set (delta ?b2 (snd (handle_message dumps msg_hash now sid m b)))"
        using d2 by simp
      show ?thesis
      proof (cases "msg_dest m")
        case None
        with a mm d True have "(ws, w') \<in> set (delta ?b2 (broadcast (Relayed m) (Some sid) ?b2))"
          by (simp add: handle_message_def Let_def)
        then show ?thesis using s2 by (rule bc)
      next
        case (Some dest)
        show ?thesis
        proof (cases "dest \<noteq> [] \<and> (\<exists>t. find_route dest ?b2 = Some t \<and> t \<noteq> [] \<and> t \<noteq> sid)")
          case True
          then obtain t where t: "dest \<noteq> []" "find_route dest ?b2 = Some t" "t \<noteq> []" "t \<noteq> sid" by blast
          with a mm d \<open>r\<close> Some have "(ws, w') \<in> set (delta ?b2 (snd (relay_to_site dumps t (Relayed m) ?b2)))"
            by (simp add: handle_message_def Let_def)
          then show ?thesis using s2 t(4) by (rule rl)
        next
          case False
          with a mm d \<open>r\<close> Some have "(ws, w') \<in> set (delta ?b2 (broadcast (Relayed m) (Some sid) ?b2))"
            by (auto simp: handle_message_def Let_def split: option.splits if_splits)
          then show ?thesis using s2 by (rule bc)
        qed
      qed
    qed
  next
    case qs
    then have t: "msg_type m = Some ''query_sites''" by (cases "msg_type m") auto
    let ?l = "map (\<lambda>(k, s). (take 16 k, name s, card (nodes s))) (sites b)"
    from assms qs have "(ws, w') \<in> set (delta b (snd (relay_to_site dumps sid (SitesList ?l) b)))"
      by (simp add: handle_message_def)
    from delta_relay_to_site[OF this] t show ?thesis by auto
  next
    case other
    show ?thesis
    proof (cases r)
      case False
      with assms other d b1 show ?thesis by (simp add: handle_message_def delta_def)
    next
      case True
      with assms other d have "(ws, w') \<in> set (delta b1 (broadcast (Relayed m) (Some sid) b1))"
        using d1 by (simp add: handle_message_def)
      then show ?thesis using b1(1) by (rule bc)
    qed
  qed
qed

subsection \<open>Fields of site records that an operation keeps\<close>

text \<open>
  \<open>keeps f b b'\<close>: every site registered in \<open>b'\<close> was registered in \<open>b\<close> and has the
  value of its field \<open>f\<close> from there.
\<close>

definition keeps :: "(site \<Rightarrow> 'a) \<Rightarrow> bridge \<Rightarrow> bridge \<Rightarrow> bool" where
  "keeps f b b' =
     (\<forall>k s'. map_of (sites b') k = Some s' \<longrightarrow> (\<exists>s. map_of (sites b) k = Some s \<and> f s' = f s))"

lemma keeps_refl: "keeps f b b"
  by (simp add: keeps_def)

lemma keeps_trans: "keeps f b b' \<Longrightarrow> keeps f b' b'' \<Longrightarrow> keeps f b b''"
  unfolding keeps_def by (metis)

lemma keeps_sites_eq: "sites b' = sites b \<Longrightarrow> keeps f b b'"
  by (simp add: keeps_def)

lemma keeps_sub_registry: "sub_registry b b' \<Longrightarrow> keeps f b b'"
  unfolding keeps_def using sub_registry_map_of[of b b'] by (auto split: if_splits)

lemma keeps_update:
  "map_of (sites b) k = Some s \<Longrightarrow> f s' = f s \<Longrightarrow> sites b' = AList.update k s' (sites b) \<Longrightarrow>
   keeps f b b'"
  by (auto simp: keeps_def update_conv')

lemma keeps_unregister_site: "keeps f b (unregister_site sid b)"
  by (rule keeps_sub_registry[OF sub_registry_unregister(1)])

lemma keeps_broadcast: "keeps f b (broadcast w ex b)"
  unfolding broadcast_def by (rule keeps_sub_registry[OF sub_registry_unregister(2)])

lemma keeps_relay_to_site:
  assumes "\<And>s a c. f (s\<lparr>messages_relayed := a, bytes_relayed := c\<rparr>) = f s"
  shows "keeps f b (snd (relay_to_site dumps target w b))"
proof (cases "map_of (sites b) target")
  case None
  then show ?thesis by (simp add: relay_to_site_def keeps_refl)
next
  case (Some s)
  show ?thesis
  proof (cases "websocket s \<in> closed b")
    case True
    have "keeps f b (send (websocket s) w b)" by (rule keeps_sites_eq) simp
    then have "keeps f b (unregister_site target (send (websocket s) w b))"
      using keeps_unregister_site by (rule keeps_trans)
    with Some True show ?thesis by (simp add: relay_to_site_def send_raises_def)
  next
    case False
    let ?s2 = "s\<lparr>messages_relayed := messages_relayed s + 1,
                  bytes_relayed := bytes_relayed s + int (length (dumps w))\<rparr>"
    have "keeps f b ((send (websocket s) w b)\<lparr>sites := AList.update target ?s2 (sites b)\<rparr>)"
      by (rule keeps_update[OF Some, of f ?s2]) (simp_all add: assms)
    with Some False show ?thesis by (simp add: relay_to_site_def send_raises_def Let_def)
  qed
qed

lemma keeps_update_routing:
  assumes "\<And>s a. f (s\<lparr>nodes := a\<rparr>) = f s"
  shows "keeps f b (update_routing sid node_list b)"
proof (cases "map_of (sites b) sid")
  case None
  then show ?thesis by (simp add: update_routing_def Let_def keeps_sites_eq)
next
  case (Some s)
  have "keeps f b (b\<lparr>routing_table := fold (\<lambda>node rt. rt(node \<mapsto> sid)) node_list (routing_table b),
        sites := AList.update sid (s\<lparr>nodes := set node_list\<rparr>) (sites b)\<rparr>)"
    by (rule keeps_update[OF Some, of f "s\<lparr>nodes := set node_list\<rparr>"]) (simp_all add: assms)
  with Some show ?thesis by (simp add: update_routing_def Let_def)
qed

text \<open>
  The branches of \<open>handle_message\<close>, each with the bridge it ends in. \<open>forward\<close> is the
  routing decision of the \<open>mesh_message\<close> branch after the global counter.
\<close>

definition forward :: "(wire \<Rightarrow> string) \<Rightarrow> string \<Rightarrow> message \<Rightarrow> bridge \<Rightarrow> bridge" where
  "forward dumps sid m b =
     (case msg_dest m of
        None \<Rightarrow> broadcast (Relayed m) (Some sid) b
      | Some dest \<Rightarrow>
          if dest \<noteq> [] then
            (case find_route dest b of
               None \<Rightarrow> broadcast (Relayed m) (Some sid) b
             | Some target_site \<Rightarrow>
                 if target_site \<noteq> [] \<and> target_site \<noteq> sid
                 then snd (relay_to_site dumps target_site (Relayed m) b)
                 else broadcast (Relayed m) (Some sid) b)
          else broadcast (Relayed m) (Some sid) b)"

lemma handle_message_heartbeat:
  "msg_type m = Some ''heartbeat'' \<Longrightarrow>
   handle_message dumps msg_hash now sid m b =
     (case map_of (sites b) sid of
        None \<Rightarrow> (Returned, b)
      | Some s \<Rightarrow> (Returned, b\<lparr>sites := AList.update sid (s\<lparr>last_heartbeat := now\<rparr>) (sites b)\<rparr>))"
  by (simp add: handle_message_def)

lemma handle_message_nodes_update:
  "msg_type m = Some ''nodes_update'' \<Longrightarrow>
   handle_message dumps msg_hash now sid m b =
     (if sid \<in> registered b then Returned else Raised (KeyError sid),
      update_routing sid (get_default [] (msg_nodes m)) b)"
  using map_of_registered[of "update_routing sid (get_default [] (msg_nodes m)) b" sid]
  by (auto simp: handle_message_def Let_def split: option.splits)

lemma handle_message_mesh_message:
  "msg_type m = Some ''mesh_message'' \<Longrightarrow>
   handle_message dumps msg_hash now sid m b =
     (Returned,
      if fst (deduplicate_message msg_hash now m b)
      then forward dumps sid m
             ((snd (deduplicate_message msg_hash now m b))
                \<lparr>total_messages := total_messages (snd (deduplicate_message msg_hash now m b)) + 1\<rparr>)
      else snd (deduplicate_message msg_hash now m b))"
  by (cases "deduplicate_message msg_hash now m b")
     (auto simp: handle_message_def forward_def Let_def split: option.splits)

lemma handle_message_query_sites:
  "msg_type m = Some ''query_sites'' \<Longrightarrow>
   handle_message dumps msg_hash now sid m b =
     (Returned, snd (relay_to_site dumps sid
        (SitesList (map (\<lambda>(k, s). (take 16 k, name s, card (nodes s))) (sites b))) b))"
  by (simp add: handle_message_def)

lemma handle_message_other:
  "get_default [] (msg_type m) \<notin> {''heartbeat'', ''nodes_update'', ''mesh_message'', ''query_sites''} \<Longrightarrow>
   handle_message dumps msg_hash now sid m b =
     (Returned,
      if fst (deduplicate_message msg_hash now m b)
      then broadcast (Relayed m) (Some sid) (snd (deduplicate_message msg_hash now m b))
      else snd (deduplicate_message msg_hash now m b))"
  by (cases "deduplicate_message msg_hash now m b") (auto simp: handle_message_def)

lemma message_kinds:
  obtains (heartbeat) "msg_type m = Some ''heartbeat''"
    | (nodes_update) "msg_type m = Some ''nodes_update''"
    | (mesh_message) "msg_type m = Some ''mesh_message''"
    | (query_sites) "msg_type m = Some ''query_sites''"
    | (other) "get_default [] (msg_type m) \<notin> {''heartbeat'', ''nodes_update'', ''mesh_message'', ''query_sites''}"
  by (cases "msg_type m") auto

lemma keeps_forward:
  assumes "\<And>s a c. f (s\<lparr>messages_relayed := a, bytes_relayed := c\<rparr>) = f s"
  shows "keeps f b (forward dumps sid m b)"
  unfolding forward_def
  by (auto simp: keeps_broadcast keeps_relay_to_site[OF assms] split: option.splits)

lemma keeps_handle_message:
  assumes "\<And>s a c. f (s\<lparr>messages_relayed := a, bytes_relayed := c\<rparr>) = f s"
    and "\<And>s a. f (s\<lparr>nodes := a\<rparr>) = f s"
    and "msg_type m \<noteq> Some ''heartbeat''"
  shows "keeps f b (snd (handle_message dumps msg_hash now sid m b))"
proof (cases m rule: message_kinds)
  case heartbeat
  with assms(3) show ?thesis by simp
next
  case nodes_update
  then show ?thesis by (simp add: handle_message_nodes_update keeps_update_routing[OF assms(2)])
next
  case mesh_message
  let ?b1 = "snd (deduplicate_message msg_hash now m b)"
  let ?b2 = "?b1\<lparr>total_messages := total_messages ?b1 + 1\<rparr>"
  have "keeps f b ?b2" by (rule keeps_sites_eq) simp
  then have "keeps f b (forward dumps sid m ?b2)"
    using keeps_forward[OF assms(1)] by (rule keeps_trans)
  moreover have "keeps f b ?b1" by (rule keeps_sites_eq) simp
  ultimately show ?thesis using mesh_message by (simp add: handle_message_mesh_message)
next
  case query_sites
  then show ?thesis by (simp add: handle_message_query_sites keeps_relay_to_site[OF assms(1)])
next
  case other
  let ?b1 = "snd (deduplicate_message msg_hash now m b)"
  have k1: "keeps f b ?b1" by (rule keeps_sites_eq) simp
  then have "keeps f b (broadcast (Relayed m) (Some sid) ?b1)"
    using keeps_broadcast by (rule keeps_trans)
  with k1 other show ?thesis by (simp add: handle_message_other)
qed

subsection \<open>Forwarding and the counters\<close>

lemma forward_unicast:
  assumes "msg_dest m = Some dest" "dest \<noteq> []" "find_route dest b = Some t" "t \<noteq> []" "t \<noteq> sid"
  shows "forward dumps sid m b = snd (relay_to_site dumps t (Relayed m) b)"
  using assms by (simp add: forward_def)

lemma forward_broadcast:
  assumes "\<not> (\<exists>dest t. msg_dest m = Some dest \<and> dest \<noteq> [] \<and> find_route dest b = Some t \<and> t \<noteq> [] \<and> t \<noteq> sid)"
  shows "forward dumps sid m b = broadcast (Relayed m) (Some sid) b"
  using assms by (auto simp: forward_def split: option.splits)

lemma total_messages_broadcast [simp]: "total_messages (broadcast w ex b) = total_messages b"
  by (simp add: broadcast_def frame_fields)

lemma total_messages_relay_to_site [simp]:
  "total_messages (snd (relay_to_site dumps t w b)) = total_messages b"
  by (simp add: relay_to_site_def frame_fields send_def send_raises_def Let_def split: option.splits)

lemma total_messages_forward [simp]: "total_messages (forward dumps sid m b) = total_messages b"
  by (simp add: forward_def split: option.splits)

lemma relay_to_site_delivered:
  assumes "map_of (sites b) t = Some st" "websocket st \<notin> closed b"
  shows "map_of (sites (snd (relay_to_site dumps t w b))) k =
     (if k = t then Some (st\<lparr>messages_relayed := messages_relayed st + 1,
                             bytes_relayed := bytes_relayed st + int (length (dumps w))\<rparr>)
      else map_of (sites b) k)"
  using assms by (simp add: relay_to_site_def send_raises_def Let_def update_conv')

lemma relay_to_site_failed:
  assumes "map_of (sites b) t = None \<or> (\<exists>st. map_of (sites b) t = Some st \<and> websocket st \<in> closed b)"
  shows "sub_registry b (snd (relay_to_site dumps t w b))"
proof (cases "map_of (sites b) t")
  case None
  then show ?thesis by (simp add: relay_to_site_def sub_registry_refl)
next
  case (Some st)
  with assms have "websocket st \<in> closed b" by simp
  with Some have "snd (relay_to_site dumps t w b) = unregister_site t (send (websocket st) w b)"
    by (simp add: relay_to_site_def send_raises_def)
  then show ?thesis
    using sub_registry_trans[OF sub_registry_send sub_registry_unregister(1)] by simp
qed

subsection \<open>A broadcast reaches every other site of its snapshot\<close>

lemma set_delta_mono:
  "extends b b' \<Longrightarrow> extends b' b'' \<Longrightarrow> set (delta b' b'') \<subseteq> set (delta b b'')"
  by (simp add: delta_trans)

lemma broadcast_loop_reaches:
  "sent (unregister_site sid b) = sent (unregister_site sid b)"
  "(k, s) \<in> set xs \<Longrightarrow> Some k \<noteq> ex \<Longrightarrow> (websocket s, w) \<in> set (delta b (broadcast_loop w ex xs b))"
proof (induction sid b and w ex xs b rule: unregister_broadcast_induct)
  case (raises w ex sid' s' rest b)
  show ?case
  proof (cases "(k, s) = (sid', s')")
    case True
    then show ?thesis unfolding broadcast_loop_raises[OF raises(1,2)] delta_raises by simp
  next
    case False
    with raises(5) have "(k, s) \<in> set rest" by auto
    from raises(4)[OF this raises(6)] show ?thesis
      unfolding broadcast_loop_raises[OF raises(1,2)] delta_raises by simp
  qed
next
  case (sends w ex sid' s' rest b)
  show ?case
  proof (cases "(k, s) = (sid', s')")
    case True
    then show ?thesis unfolding broadcast_loop_sends[OF sends(1,2)] delta_sends by simp
  next
    case False
    with sends(4) have "(k, s) \<in> set rest" by auto
    from sends(3)[OF this sends(5)] show ?thesis
      unfolding broadcast_loop_sends[OF sends(1,2)] delta_sends by simp
  qed
next
  case (skip w sid' s' rest b)
  then show ?case unfolding broadcast_loop_skip by auto
qed simp_all

lemma broadcast_reaches:
  "(k, s) \<in> set (sites b) \<Longrightarrow> Some k \<noteq> ex \<Longrightarrow> (websocket s, w) \<in> set (delta b (broadcast w ex b))"
  unfolding broadcast_def by (rule broadcast_loop_reaches(2))

subsection \<open>With no closed websocket nothing is unregistered\<close>

lemma sub_registry_same:
  assumes "sub_registry b b'" "registered b \<subseteq> registered b'"
  shows "sites b' = sites b"
proof -
  have "filter (\<lambda>p. fst p \<in> registered b') (sites b) = sites b"
    using assms(2) by (auto simp: registered_def filter_id_conv)
  with assms(1) show ?thesis by (simp add: sub_registry_def)
qed

lemma broadcast_all_open:
  assumes "\<forall>(k, s) \<in> set (sites b). websocket s \<notin> closed b"
  shows "sites (broadcast w ex b) = sites b" "routing_table (broadcast w ex b) = routing_table b"
proof -
  have r: "registered b \<subseteq> registered (broadcast w ex b)"
  proof
    fix X assume X: "X \<in> registered b"
    show "X \<in> registered (broadcast w ex b)"
    proof (rule ccontr)
      assume "X \<notin> registered (broadcast w ex b)"
      from removed_closed(2)[OF X this[unfolded broadcast_def]] assms show False by auto
    qed
  qed
  show "sites (broadcast w ex b) = sites b"
    using sub_registry_unregister(2)[of b w ex "sites b"] r
    unfolding broadcast_def[symmetric] by (rule sub_registry_same)
  show "routing_table (broadcast w ex b) = routing_table b"
  proof
    fix n
    show "routing_table (broadcast w ex b) n = routing_table b n"
      using routing_unregister(2)[of w ex "sites b" b n] r
      unfolding broadcast_def[symmetric] by (auto split: option.splits)
  qed
qed

subsection \<open>Each departure is announced once to every site that stays\<close>

lemma count_list_distinct: "distinct xs \<Longrightarrow> x \<in> set xs \<Longrightarrow> count_list xs x = 1"
  by (induction xs) auto

lemma same_socket:
  assumes "inj_on (websocket \<circ> snd) (set U)" "(k, s) \<in> set U" "(R, r) \<in> set U"
    "websocket s = websocket r"
  shows "k = R \<and> s = r"
  using inj_onD[OF assms(1), of "(k, s)" "(R, r)"] assms(2-4) by simp

lemma sub_registry_distinct:
  assumes "sub_registry b0 b" "distinct (map fst (sites b0))"
  shows "distinct (sites b)"
proof -
  have "distinct (sites b0)" using assms(2) by (simp add: distinct_map)
  then show ?thesis using assms(1) by (simp add: sub_registry_def)
qed

text \<open>
  \<open>b0\<close> is a bridge whose sites have ids and websockets of their own; the bridges of the
  induction descend from it, and the snapshots are taken from it or its descendants.
\<close>

lemma site_left_once:
  assumes inj: "inj_on (websocket \<circ> snd) (set (sites b0))"
    and dist: "distinct (map fst (sites b0))"
  shows "sub_registry b0 b \<Longrightarrow> map_of (sites b) X = Some x \<Longrightarrow>
         X \<notin> registered (unregister_site sid b) \<Longrightarrow> (R, r) \<in> set (sites (unregister_site sid b)) \<Longrightarrow>
         count_list (delta b (unregister_site sid b)) (websocket r, SiteLeft X (name x)) = 1"
    and "sub_registry b0 b \<Longrightarrow> set xs \<subseteq> set (sites b0) \<Longrightarrow>
         (\<forall>Y nm. w = SiteLeft Y nm \<longrightarrow> Y \<notin> registered b) \<Longrightarrow>
         (R, r) \<in> set (sites (broadcast_loop w ex xs b)) \<Longrightarrow>
         (map_of (sites b) X = Some x \<longrightarrow> X \<notin> registered (broadcast_loop w ex xs b) \<longrightarrow>
            count_list (delta b (broadcast_loop w ex xs b)) (websocket r, SiteLeft X (name x)) = 1)
         \<and> count_list (delta b (broadcast_loop w ex xs b)) (websocket r, w)
             = (if Some R \<noteq> ex then count_list xs (R, r) else 0)"
proof (induction sid b and w ex xs b rule: unregister_broadcast_induct)
  case (absent sid b)
  then show ?case using map_of_in_registered[of b X x] by (simp add: unregister_site_absent)
next
  case (present sid b s)
  let ?b2 = "without_site sid b"
  let ?w = "SiteLeft sid (name s)"
  let ?b' = "broadcast_loop ?w (Some sid) (sites ?b2) ?b2"
  have eq: "unregister_site sid b = ?b'" by (rule unregister_site_present[OF present(1)])
  have sub2: "sub_registry b0 ?b2"
    using present(3) sub_registry_without_site by (rule sub_registry_trans)
  have xs: "set (sites ?b2) \<subseteq> set (sites b0)" using sub2 by (rule sub_registry_set)
  have foreign: "\<forall>Y nm. ?w = SiteLeft Y nm \<longrightarrow> Y \<notin> registered ?b2" by simp
  have Rr: "(R, r) \<in> set (sites ?b')" using present(6) unfolding eq .
  note ih = present(2)[OF sub2 xs foreign Rr]
  have dl: "delta b ?b' = delta ?b2 ?b'" by (rule delta_cong) simp
  have "sub_registry ?b2 ?b'" by (rule sub_registry_unregister(2))
  then have Rr2: "(R, r) \<in> set (sites ?b2)"
    using Rr sub_registry_set by blast
  show ?case
  proof (cases "X = sid")
    case True
    with present(1,4) have x: "x = s" by simp
    have "R \<noteq> sid" using Rr2 by (auto simp: AList.delete_eq)
    moreover have "count_list (sites ?b2) (R, r) = 1"
      using sub_registry_distinct[OF sub2 dist] Rr2 by (rule count_list_distinct)
    ultimately show ?thesis using ih True x unfolding eq dl by simp
  next
    case False
    with present(4) have "map_of (sites ?b2) X = Some x"
      using sub_registry_map_of[OF sub_registry_without_site, of sid b X] map_of_in_registered[of b X x]
      by simp
    with ih present(5) show ?thesis unfolding eq dl by simp
  qed
next
  case (nil w ex b)
  then show ?case using map_of_in_registered[of b X x] by auto
next
  case (skip w sid s rest b)
  from skip(1)[OF skip(2) _ skip(4) skip(5)[unfolded broadcast_loop_skip]] skip(3)
  show ?case unfolding broadcast_loop_skip by auto
next
  case (raises w ex sid s rest b)
  let ?b1 = "send (websocket s) w b"
  let ?b2 = "unregister_site sid ?b1"
  let ?b3 = "broadcast_loop w ex rest ?b2"
  have eq: "broadcast_loop w ex ((sid, s) # rest) b = ?b3" by (rule broadcast_loop_raises[OF raises(1,2)])
  have sub1: "sub_registry b0 ?b1" using raises(5) sub_registry_send by (rule sub_registry_trans)
  have sub12: "sub_registry ?b1 ?b2" by (rule sub_registry_unregister(1))
  have sub2: "sub_registry b0 ?b2" using sub1 sub12 by (rule sub_registry_trans)
  have sub23: "sub_registry ?b2 ?b3" by (rule sub_registry_unregister(2))
  have Rr3: "(R, r) \<in> set (sites ?b3)" using raises(8) unfolding eq .
  have Rr2: "(R, r) \<in> set (sites ?b2)" using Rr3 sub_registry_set[OF sub23] by auto
  have Rr0: "(R, r) \<in> set (sites b0)" using Rr2 sub_registry_set[OF sub2] by auto
  have s0: "(sid, s) \<in> set (sites b0)" using raises(6) by simp
  have "R \<in> registered ?b2" using Rr2 by (force simp: registered_def)
  then have Rsid: "R \<noteq> sid" using unregister_site_removes[of sid ?b1] by auto
  then have ws: "websocket s \<noteq> websocket r" using same_socket[OF inj s0 Rr0] by auto
  have foreign2: "\<forall>Y nm. w = SiteLeft Y nm \<longrightarrow> Y \<notin> registered ?b2"
    using raises(7) sub_registry_subset[OF sub12] by auto
  have rest: "set rest \<subseteq> set (sites b0)" using raises(6) by simp
  note ih2 = raises(4)[OF sub2 rest foreign2 Rr3]
  have w12: "count_list (delta ?b1 ?b2) (websocket r, w) = 0"
  proof -
    have "(websocket r, w) \<notin> set (delta ?b1 ?b2)"
    proof
      assume "(websocket r, w) \<in> set (delta ?b1 ?b2)"
      from delta_origin(1)[OF this] obtain Y y where "w = SiteLeft Y (name y)" "map_of (sites ?b1) Y = Some y"
        by auto
      then show False using raises(7) map_of_in_registered[of ?b1 Y y] by auto
    qed
    then show ?thesis by simp
  qed
  have second: "count_list (delta b ?b3) (websocket r, w) = (if Some R \<noteq> ex then count_list ((sid, s) # rest) (R, r) else 0)"
    unfolding delta_raises using ws w12 ih2 Rsid by simp
  have first: "count_list (delta b ?b3) (websocket r, SiteLeft X (name x)) = 1"
    if X: "map_of (sites b) X = Some x" "X \<notin> registered ?b3"
  proof -
    have Xb: "X \<in> registered b" using X(1) by (rule map_of_in_registered)
    then have wX: "w \<noteq> SiteLeft X (name x)" using raises(7) by auto
    show ?thesis
    proof (cases "X \<in> registered ?b2")
      case False
      have "count_list (delta ?b1 ?b2) (websocket r, SiteLeft X (name x)) = 1"
        using raises(3)[OF sub1 _ False Rr2] X(1) by simp
      moreover have "(websocket r, SiteLeft X (name x)) \<notin> set (delta ?b2 ?b3)"
      proof
        assume "(websocket r, SiteLeft X (name x)) \<in> set (delta ?b2 ?b3)"
        from delta_origin(2)[OF this] wX obtain y where "map_of (sites ?b2) X = Some y" by auto
        then show False using False map_of_in_registered[of ?b2 X y] by simp
      qed
      ultimately show ?thesis unfolding delta_raises using wX by simp
    next
      case True
      have "(websocket r, SiteLeft X (name x)) \<notin> set (delta ?b1 ?b2)"
      proof
        assume "(websocket r, SiteLeft X (name x)) \<in> set (delta ?b1 ?b2)"
        from delta_origin(1)[OF this] True show False by auto
      qed
      moreover have "map_of (sites ?b2) X = Some x"
        using sub_registry_map_of[OF sub12, of X] True X(1) by simp
      with ih2 X(2) have "count_list (delta ?b2 ?b3) (websocket r, SiteLeft X (name x)) = 1" by simp
      ultimately show ?thesis unfolding delta_raises using wX by simp
    qed
  qed
  show ?case unfolding eq using first second by blast
next
  case (sends w ex sid s rest b)
  let ?b1 = "send (websocket s) w b"
  let ?b3 = "broadcast_loop w ex rest ?b1"
  have eq: "broadcast_loop w ex ((sid, s) # rest) b = ?b3" by (rule broadcast_loop_sends[OF sends(1,2)])
  have sub1: "sub_registry b0 ?b1" using sends(4) sub_registry_send by (rule sub_registry_trans)
  have Rr3: "(R, r) \<in> set (sites ?b3)" using sends(7) unfolding eq .
  have "sub_registry ?b1 ?b3" by (rule sub_registry_unregister(2))
  then have Rr0: "(R, r) \<in> set (sites b0)"
    using Rr3 sub_registry_set[OF sub1] sub_registry_set by blast
  have s0: "(sid, s) \<in> set (sites b0)" using sends(5) by simp
  have rest: "set rest \<subseteq> set (sites b0)" using sends(5) by simp
  have foreign1: "\<forall>Y nm. w = SiteLeft Y nm \<longrightarrow> Y \<notin> registered ?b1" using sends(6) by simp
  note ih = sends(3)[OF sub1 rest foreign1 Rr3]
  have same: "websocket s = websocket r \<longleftrightarrow> (sid, s) = (R, r)"
    using same_socket[OF inj s0 Rr0] by auto
  have second: "count_list (delta b ?b3) (websocket r, w) = (if Some R \<noteq> ex then count_list ((sid, s) # rest) (R, r) else 0)"
    unfolding delta_sends using ih same sends(1) by auto
  have first: "count_list (delta b ?b3) (websocket r, SiteLeft X (name x)) = 1"
    if X: "map_of (sites b) X = Some x" "X \<notin> registered ?b3"
  proof -
    have "X \<in> registered b" using X(1) by (rule map_of_in_registered)
    then have "w \<noteq> SiteLeft X (name x)" using sends(6) by auto
    then show ?thesis unfolding delta_sends using ih X by simp
  qed
  show ?case unfolding eq using first second by blast
qed

text \<open>A send to the websocket of a site that stays registered did not raise.\<close>

lemma reached_is_open:
  assumes inj: "inj_on (websocket \<circ> snd) (set (sites b0))"
  shows "sub_registry b0 b \<Longrightarrow> (R, r) \<in> set (sites (unregister_site sid b)) \<Longrightarrow>
         (websocket r, w') \<in> set (delta b (unregister_site sid b)) \<Longrightarrow> websocket r \<notin> closed b"
    and "sub_registry b0 b \<Longrightarrow> set xs \<subseteq> set (sites b0) \<Longrightarrow>
         (R, r) \<in> set (sites (broadcast_loop w ex xs b)) \<Longrightarrow>
         (websocket r, w') \<in> set (delta b (broadcast_loop w ex xs b)) \<Longrightarrow> websocket r \<notin> closed b"
proof (induction sid b and w ex xs b rule: unregister_broadcast_induct)
  case (absent sid b)
  then show ?case by (simp add: unregister_site_absent)
next
  case (present sid b s)
  let ?b2 = "without_site sid b"
  let ?b' = "broadcast_loop (SiteLeft sid (name s)) (Some sid) (sites ?b2) ?b2"
  have eq: "unregister_site sid b = ?b'" by (rule unregister_site_present[OF present(1)])
  have sub2: "sub_registry b0 ?b2"
    using present(3) sub_registry_without_site by (rule sub_registry_trans)
  have dl: "delta b ?b' = delta ?b2 ?b'" by (rule delta_cong) simp
  from present(2)[OF sub2 sub_registry_set[OF sub2]] present(4,5)
  show ?case unfolding eq dl by simp
next
  case (nil w ex b)
  then show ?case by simp
next
  case (skip w sid s rest b)
  from skip(1)[OF skip(2)] skip(3,4,5) show ?case unfolding broadcast_loop_skip by simp
next
  case (raises w ex sid s rest b)
  let ?b1 = "send (websocket s) w b"
  let ?b2 = "unregister_site sid ?b1"
  let ?b3 = "broadcast_loop w ex rest ?b2"
  have eq: "broadcast_loop w ex ((sid, s) # rest) b = ?b3" by (rule broadcast_loop_raises[OF raises(1,2)])
  have sub1: "sub_registry b0 ?b1" using raises(5) sub_registry_send by (rule sub_registry_trans)
  have sub12: "sub_registry ?b1 ?b2" by (rule sub_registry_unregister(1))
  have sub2: "sub_registry b0 ?b2" using sub1 sub12 by (rule sub_registry_trans)
  have sub23: "sub_registry ?b2 ?b3" by (rule sub_registry_unregister(2))
  have Rr3: "(R, r) \<in> set (sites ?b3)" using raises(7) unfolding eq .
  have Rr2: "(R, r) \<in> set (sites ?b2)" using Rr3 sub_registry_set[OF sub23] by auto
  have Rr0: "(R, r) \<in> set (sites b0)" using Rr2 sub_registry_set[OF sub2] by auto
  have s0: "(sid, s) \<in> set (sites b0)" using raises(6) by simp
  have "R \<in> registered ?b2" using Rr2 by (force simp: registered_def)
  then have "R \<noteq> sid" using unregister_site_removes[of sid ?b1] by auto
  then have ws: "websocket s \<noteq> websocket r" using same_socket[OF inj s0 Rr0] by auto
  have rest: "set rest \<subseteq> set (sites b0)" using raises(6) by simp
  from raises(8) have "(websocket r, w') \<in> set (delta ?b1 ?b2) \<or> (websocket r, w') \<in> set (delta ?b2 ?b3)"
    unfolding eq delta_raises using ws by auto
  then show ?case
  proof
    assume "(websocket r, w') \<in> set (delta ?b1 ?b2)"
    from raises(3)[OF sub1 Rr2 this] show ?thesis by simp
  next
    assume "(websocket r, w') \<in> set (delta ?b2 ?b3)"
    from raises(4)[OF sub2 rest Rr3 this] show ?thesis by simp
  qed
next
  case (sends w ex sid s rest b)
  let ?b1 = "send (websocket s) w b"
  let ?b3 = "broadcast_loop w ex rest ?b1"
  have eq: "broadcast_loop w ex ((sid, s) # rest) b = ?b3" by (rule broadcast_loop_sends[OF sends(1,2)])
  have sub1: "sub_registry b0 ?b1" using sends(4) sub_registry_send by (rule sub_registry_trans)
  have rest: "set rest \<subseteq> set (sites b0)" using sends(5) by simp
  show ?case
  proof (cases "websocket r = websocket s")
    case True
    with sends(2) show ?thesis by simp
  next
    case False
    with sends(7) have "(websocket r, w') \<in> set (delta ?b1 ?b3)" unfolding eq delta_sends by auto
    from sends(3)[OF sub1 rest sends(6)[unfolded eq] this] show ?thesis by simp
  qed
qed

subsection \<open>The loop of the heartbeat checker\<close>

lemma heartbeat_loop_sub_registry: "sub_registry b (heartbeat_loop now xs b)"
proof (induction xs arbitrary: b)
  case Nil
  show ?case by (simp add: sub_registry_refl)
next
  case (Cons p xs)
  obtain sid s where p: "p = (sid, s)" by (cases p)
  show ?case
    using Cons[of "unregister_site sid b"] Cons[of b] sub_registry_unregister(1)[of b sid]
    by (auto simp: p intro: sub_registry_trans)
qed

lemma heartbeat_loop_extends: "extends b (heartbeat_loop now xs b)"
proof (induction xs arbitrary: b)
  case Nil
  show ?case by (simp add: extends_refl)
next
  case (Cons p xs)
  obtain sid s where p: "p = (sid, s)" by (cases p)
  show ?case
    using Cons[of "unregister_site sid b"] Cons[of b] extends_unregister(1)[of b sid]
    by (auto simp: p intro: extends_trans)
qed

lemma heartbeat_loop_closed [simp]: "closed (heartbeat_loop now xs b) = closed b"
  by (induction now xs b rule: heartbeat_loop.induct) simp_all

lemma heartbeat_loop_stale:
  "(sid, s) \<in> set xs \<Longrightarrow> now - last_heartbeat s > 90 \<Longrightarrow> sid \<notin> registered (heartbeat_loop now xs b)"
proof (induction xs arbitrary: b)
  case Nil
  then show ?case by simp
next
  case (Cons p xs)
  obtain k t where p: "p = (k, t)" by (cases p)
  show ?case
  proof (cases "(sid, s) = (k, t)")
    case True
    then have "heartbeat_loop now (p # xs) b = heartbeat_loop now xs (unregister_site sid b)"
      using Cons.prems(2) by (simp add: p)
    moreover have "registered (heartbeat_loop now xs (unregister_site sid b)) \<subseteq> registered (unregister_site sid b)"
      by (rule sub_registry_subset[OF heartbeat_loop_sub_registry])
    ultimately show ?thesis using unregister_site_removes[of sid b] by auto
  next
    case False
    with Cons.prems(1) have "(sid, s) \<in> set xs" by (auto simp: p)
    from Cons.IH[OF this Cons.prems(2)] show ?thesis by (simp add: p)
  qed
qed

lemma heartbeat_loop_routing:
  "routing_table (heartbeat_loop now xs b) n =
     (case routing_table b n of None \<Rightarrow> None
      | Some owner \<Rightarrow>
          if owner \<in> registered b \<and> owner \<notin> registered (heartbeat_loop now xs b) then None
          else Some owner)"
proof (induction xs arbitrary: b)
  case Nil
  show ?case by (simp split: option.splits)
next
  case (Cons p xs)
  obtain sid s where p: "p = (sid, s)" by (cases p)
  show ?case
  proof (cases "now - last_heartbeat s > 90")
    case False
    then have eq: "heartbeat_loop now (p # xs) b = heartbeat_loop now xs b" by (simp add: p)
    show ?thesis unfolding eq by (rule Cons)
  next
    case True
    let ?b1 = "unregister_site sid b"
    have s1: "registered ?b1 \<subseteq> registered b" by (rule registered_unregister_site)
    have s2: "registered (heartbeat_loop now xs ?b1) \<subseteq> registered ?b1"
      by (rule sub_registry_subset[OF heartbeat_loop_sub_registry])
    have eq: "heartbeat_loop now (p # xs) b = heartbeat_loop now xs ?b1" using True by (simp add: p)
    show ?thesis unfolding eq
      using Cons[of ?b1] routing_unregister(1)[of sid b n] s1 s2 by (auto split: option.splits)
  qed
qed

lemma heartbeat_loop_origin:
  "(ws, w') \<in> set (delta b (heartbeat_loop now xs b)) \<Longrightarrow>
     \<exists>X x. w' = SiteLeft X (name x) \<and> map_of (sites b) X = Some x
           \<and> X \<notin> registered (heartbeat_loop now xs b)"
proof (induction xs arbitrary: b)
  case Nil
  then show ?case by simp
next
  case (Cons p xs)
  obtain sid s where p: "p = (sid, s)" by (cases p)
  show ?case
  proof (cases "now - last_heartbeat s > 90")
    case False
    then show ?thesis using Cons.IH[of b] Cons.prems by (simp add: p)
  next
    case True
    let ?b1 = "unregister_site sid b"
    let ?b2 = "heartbeat_loop now xs ?b1"
    have eq: "heartbeat_loop now (p # xs) b = ?b2" using True by (simp add: p)
    have dl: "delta b ?b2 = delta b ?b1 @ delta ?b1 ?b2"
      by (rule delta_trans[OF extends_unregister(1) heartbeat_loop_extends])
    from Cons.prems have "(ws, w') \<in> set (delta b ?b1) \<or> (ws, w') \<in> set (delta ?b1 ?b2)"
      unfolding eq dl by auto
    then show ?thesis
    proof
      assume "(ws, w') \<in> set (delta b ?b1)"
      from delta_origin(1)[OF this] obtain X x where
        "w' = SiteLeft X (name x)" "map_of (sites b) X = Some x" "X \<notin> registered ?b1" by auto
      then show ?thesis unfolding eq
        using sub_registry_subset[OF heartbeat_loop_sub_registry, of now xs ?b1] by blast
    next
      assume "(ws, w') \<in> set (delta ?b1 ?b2)"
      from Cons.IH[OF this] obtain X x where
        X: "w' = SiteLeft X (name x)" "map_of (sites ?b1) X = Some x" "X \<notin> registered ?b2" by auto
      have "sub_registry b ?b1" by (rule sub_registry_unregister(1))
      with X(2) have "map_of (sites b) X = Some x"
        by (simp add: sub_registry_map_of split: if_splits)
      with X show ?thesis unfolding eq by blast
    qed
  qed
qed

lemma heartbeat_loop_once:
  assumes inj: "inj_on (websocket \<circ> snd) (set (sites b0))"
    and dist: "distinct (map fst (sites b0))"
  shows "sub_registry b0 b \<Longrightarrow> map_of (sites b) X = Some x \<Longrightarrow>
         X \<notin> registered (heartbeat_loop now xs b) \<Longrightarrow> (R, r) \<in> set (sites (heartbeat_loop now xs b)) \<Longrightarrow>
         count_list (delta b (heartbeat_loop now xs b)) (websocket r, SiteLeft X (name x)) = 1"
proof (induction xs arbitrary: b)
  case Nil
  then show ?case using map_of_in_registered[of b X x] by simp
next
  case (Cons p xs)
  obtain sid s where p: "p = (sid, s)" by (cases p)
  show ?case
  proof (cases "now - last_heartbeat s > 90")
    case False
    then have eq: "heartbeat_loop now (p # xs) b = heartbeat_loop now xs b" by (simp add: p)
    from Cons.IH[OF Cons.prems(1,2)] Cons.prems(3,4) show ?thesis unfolding eq by simp
  next
    case True
    let ?b1 = "unregister_site sid b"
    let ?b2 = "heartbeat_loop now xs ?b1"
    let ?t = "(websocket r, SiteLeft X (name x))"
    have eq: "heartbeat_loop now (p # xs) b = ?b2" using True by (simp add: p)
    have dl: "delta b ?b2 = delta b ?b1 @ delta ?b1 ?b2"
      by (rule delta_trans[OF extends_unregister(1) heartbeat_loop_extends])
    have sub01: "sub_registry b0 ?b1"
      using Cons.prems(1) sub_registry_unregister(1) by (rule sub_registry_trans)
    have sub12: "sub_registry ?b1 ?b2" by (rule heartbeat_loop_sub_registry)
    have Rr2: "(R, r) \<in> set (sites ?b2)" using Cons.prems(4) unfolding eq .
    have Rr1: "(R, r) \<in> set (sites ?b1)" using Rr2 sub_registry_set[OF sub12] by auto
    have X2: "X \<notin> registered ?b2" using Cons.prems(3) unfolding eq .
    show ?thesis
    proof (cases "X \<in> registered ?b1")
      case False
      have "count_list (delta b ?b1) ?t = 1"
        by (rule site_left_once(1)[OF inj dist Cons.prems(1,2) False Rr1])
      moreover have "?t \<notin> set (delta ?b1 ?b2)"
      proof
        assume "?t \<in> set (delta ?b1 ?b2)"
        from heartbeat_loop_origin[OF this] obtain y where "map_of (sites ?b1) X = Some y" by auto
        then show False using False map_of_in_registered[of ?b1 X y] by simp
      qed
      ultimately show ?thesis unfolding eq dl by simp
    next
      case True
      have "?t \<notin> set (delta b ?b1)"
      proof
        assume "?t \<in> set (delta b ?b1)"
        from delta_origin(1)[OF this] True show False by auto
      qed
      moreover have "sub_registry b ?b1" by (rule sub_registry_unregister(1))
      then have "map_of (sites ?b1) X = Some x"
        using True Cons.prems(2) by (simp add: sub_registry_map_of)
      from Cons.IH[OF sub01 this X2 Rr2] have "count_list (delta ?b1 ?b2) ?t = 1" .
      ultimately show ?thesis unfolding eq dl by simp
    qed
  qed
qed

lemma heartbeat_loop_reached_open:
  assumes inj: "inj_on (websocket \<circ> snd) (set (sites b0))"
  shows "sub_registry b0 b \<Longrightarrow> (R, r) \<in> set (sites (heartbeat_loop now xs b)) \<Longrightarrow>
         (websocket r, w') \<in> set (delta b (heartbeat_loop now xs b)) \<Longrightarrow> websocket r \<notin> closed b"
proof (induction xs arbitrary: b)
  case Nil
  then show ?case by simp
next
  case (Cons p xs)
  obtain sid s where p: "p = (sid, s)" by (cases p)
  show ?case
  proof (cases "now - last_heartbeat s > 90")
    case False
    then have eq: "heartbeat_loop now (p # xs) b = heartbeat_loop now xs b" by (simp add: p)
    from Cons.IH[OF Cons.prems(1)] Cons.prems(2,3) show ?thesis unfolding eq by simp
  next
    case True
    let ?b1 = "unregister_site sid b"
    let ?b2 = "heartbeat_loop now xs ?b1"
    have eq: "heartbeat_loop now (p # xs) b = ?b2" using True by (simp add: p)
    have dl: "delta b ?b2 = delta b ?b1 @ delta ?b1 ?b2"
      by (rule delta_trans[OF extends_unregister(1) heartbeat_loop_extends])
    have sub01: "sub_registry b0 ?b1"
      using Cons.prems(1) sub_registry_unregister(1) by (rule sub_registry_trans)
    have sub12: "sub_registry ?b1 ?b2" by (rule heartbeat_loop_sub_registry)
    have Rr2: "(R, r) \<in> set (sites ?b2)" using Cons.prems(2) unfolding eq .
    have Rr1: "(R, r) \<in> set (sites ?b1)" using Rr2 sub_registry_set[OF sub12] by auto
    from Cons.prems(3) have "(websocket r, w') \<in> set (delta b ?b1) \<or> (websocket r, w') \<in> set (delta ?b1 ?b2)"
      unfolding eq dl by auto
    then show ?thesis
    proof
      assume "(websocket r, w') \<in> set (delta b ?b1)"
      then show ?thesis by (rule reached_is_open(1)[OF inj Cons.prems(1) Rr1])
    next
      assume "(websocket r, w') \<in> set (delta ?b1 ?b2)"
      from Cons.IH[OF sub01 Rr2 this] show ?thesis by simp
    qed
  qed
qed

text \<open>The checker removes a site only for a stale heartbeat or after a send to it raised.\<close>

lemma heartbeat_loop_removed:
  "X \<in> registered b \<Longrightarrow> X \<notin> registered (heartbeat_loop now xs b) \<Longrightarrow>
     (\<exists>s. (X, s) \<in> set xs \<and> now - last_heartbeat s > 90)
     \<or> (\<exists>s. (X, s) \<in> set (sites b) \<and> websocket s \<in> closed b)"
proof (induction xs arbitrary: b)
  case Nil
  then show ?case by simp
next
  case (Cons p xs)
  obtain sid s where p: "p = (sid, s)" by (cases p)
  show ?case
  proof (cases "now - last_heartbeat s > 90")
    case False
    then have eq: "heartbeat_loop now (p # xs) b = heartbeat_loop now xs b" by (simp add: p)
    from Cons.IH[OF Cons.prems(1)] Cons.prems(2) show ?thesis unfolding eq by auto
  next
    case True
    let ?b1 = "unregister_site sid b"
    have eq: "heartbeat_loop now (p # xs) b = heartbeat_loop now xs ?b1" using True by (simp add: p)
    show ?thesis
    proof (cases "X \<in> registered ?b1")
      case False
      from removed_closed(1)[OF Cons.prems(1) False] True show ?thesis by (auto simp: p)
    next
      case in1: True
      have "sub_registry b ?b1" by (rule sub_registry_unregister(1))
      then have "set (sites ?b1) \<subseteq> set (sites b)" by (rule sub_registry_set)
      with Cons.IH[OF in1] Cons.prems(2) show ?thesis unfolding eq by auto
    qed
  qed
qed

section \<open>A bridge with two sites\<close>

text \<open>
  The bridge of the end-to-end scenario: site \<open>s1\<close> on websocket 1 with node \<open>0xAAA\<close>,
  site \<open>s2\<close> on websocket 2 with node \<open>0xBBB\<close>, both registered and both having reported
  their nodes; \<open>cl\<close> are the websockets that are closed by now. \<open>dumps0\<close> stands for
  \<open>json.dumps\<close> where only the length of its result matters.
\<close>

definition site_s1 :: site where
  "site_s1 = \<lparr>site_id = ''s1'', websocket = 1, name = ''Site-s1'', nodes = {''0xAAA''},
     connected_at = 1, last_heartbeat = 1, messages_relayed = 0, bytes_relayed = 0\<rparr>"

definition site_s2 :: site where
  "site_s2 = \<lparr>site_id = ''s2'', websocket = 2, name = ''Site-s2'', nodes = {''0xBBB''},
     connected_at = 2, last_heartbeat = 2, messages_relayed = 0, bytes_relayed = 0\<rparr>"

definition two_sites :: "nat set \<Rightarrow> bridge" where
  "two_sites cl = \<lparr>sites = [(''s1'', site_s1), (''s2'', site_s2)], seen_messages = Map.empty,
     message_ttl = 60, routing_table = [''0xAAA'' \<mapsto> ''s1'', ''0xBBB'' \<mapsto> ''s2''],
     total_messages = 0, total_bytes = 0, start_time = 0, closed = cl, sent = []\<rparr>"

definition dumps0 :: "wire \<Rightarrow> string" where
  "dumps0 w = ''0123456789''"

definition msg :: "string \<Rightarrow> message" where
  "msg t = \<lparr>msg_type = Some t, msg_site_id = None, msg_name = None, msg_dest = None,
     msg_nodes = None, msg_payload = []\<rparr>"

definition frame_of :: "message \<Rightarrow> frame" where
  "frame_of m = \<lparr>raw_length = 40, decoded = Some m\<rparr>"

text \<open>
  The two sites get there by the protocol: each registers on its websocket and sends one
  \<open>nodes_update\<close>.
\<close>

lemma two_sites_reached:
  "sites (snd (handler_frame dumps0 msg_payload 4 2 (Some ''s2'') (frame_of ((msg ''nodes_update'')\<lparr>msg_nodes := Some [''0xBBB'']\<rparr>))
     (snd (handler_frame dumps0 msg_payload 3 1 (Some ''s1'') (frame_of ((msg ''nodes_update'')\<lparr>msg_nodes := Some [''0xAAA'']\<rparr>))
     (snd (handler_frame dumps0 msg_payload 2 2 None (frame_of ((msg ''register'')\<lparr>msg_site_id := Some ''s2''\<rparr>))
     (snd (handler_frame dumps0 msg_payload 1 1 None (frame_of ((msg ''register'')\<lparr>msg_site_id := Some ''s1''\<rparr>))
        (init 0 {})))))))))
   = sites (two_sites {})"
  by code_simp

section \<open>Registering an id that is registered\<close>

lemma broadcast_site_update_keeps_open:
  assumes "distinct (map fst (sites b))" "map_of (sites b) sid = Some s" "websocket s \<notin> closed b"
  shows "map_of (sites (broadcast_site_update b)) sid = Some s"
proof -
  let ?w = "SitesUpdate (map (\<lambda>(sid, s). (take 16 sid, name s, card (nodes s), connected_at s)) (sites b))
              (length (sites b))"
  have eq: "broadcast_site_update b = broadcast_loop ?w None (sites b) b"
    by (simp add: broadcast_site_update_def broadcast_def Let_def)
  have "sid \<in> registered (broadcast_loop ?w None (sites b) b)"
  proof (rule ccontr)
    assume n: "sid \<notin> registered (broadcast_loop ?w None (sites b) b)"
    have "sid \<in> registered b" using assms(2) by (rule map_of_in_registered)
    from removed_closed(2)[OF this n] obtain s' where "(sid, s') \<in> set (sites b)" "websocket s' \<in> closed b"
      by auto
    with assms show False by (simp add: map_of_eq_Some_iff)
  qed
  moreover have "sub_registry b (broadcast_loop ?w None (sites b) b)"
    by (rule sub_registry_unregister(2))
  ultimately show ?thesis
    using assms(2) unfolding eq by (simp add: sub_registry_map_of)
qed

lemma delta_broadcast_site_update:
  assumes "(ws, w) \<in> set (delta b (broadcast_site_update b))"
  shows "(\<exists>l c. w = SitesUpdate l c) \<or> (\<exists>X nm. w = SiteLeft X nm)"
  using delta_broadcast[OF assms[unfolded broadcast_site_update_def Let_def]] by auto

lemma broadcast_site_update_fields [simp]:
  "closed (broadcast_site_update b) = closed b"
  by (simp add: broadcast_site_update_def broadcast_def Let_def)

lemma extends_broadcast_site_update: "extends b (broadcast_site_update b)"
  by (simp add: broadcast_site_update_def broadcast_def Let_def extends_unregister(2))


text \<open>
  Claim C1, as the specification states it, has a \<open>register\<close> for an id with a live
  connection rejected and the record of that connection left alone. \<open>register_site\<close>
  assigns \<open>self.sites[site_id]\<close> without looking: while \<open>s1\<close> is registered on websocket
  1, a new connection on websocket 3 registers as \<open>s1\<close>; it is welcomed, no error is sent,
  and the record of \<open>s1\<close> is a new one, on websocket 3 with no nodes.
\<close>

theorem register_duplicate_counterexample:
  "map_of (sites (two_sites {})) ''s1'' = Some site_s1
   \<and> fst (handler_frame dumps0 msg_payload 5 3 None
        (frame_of ((msg ''register'')\<lparr>msg_site_id := Some ''s1''\<rparr>)) (two_sites {})) = Open (Some ''s1'')
   \<and> map_of (sites (snd (handler_frame dumps0 msg_payload 5 3 None
        (frame_of ((msg ''register'')\<lparr>msg_site_id := Some ''s1''\<rparr>)) (two_sites {})))) ''s1''
      = Some \<lparr>site_id = ''s1'', websocket = 3, name = ''Site-s1'', nodes = {},
           connected_at = 5, last_heartbeat = 5, messages_relayed = 0, bytes_relayed = 0\<rparr>
   \<and> map_of (sites (snd (handler_frame dumps0 msg_payload 5 3 None
        (frame_of ((msg ''register'')\<lparr>msg_site_id := Some ''s1''\<rparr>)) (two_sites {})))) ''s1''
      \<noteq> Some site_s1
   \<and> delta (two_sites {}) (snd (handler_frame dumps0 msg_payload 5 3 None
        (frame_of ((msg ''register'')\<lparr>msg_site_id := Some ''s1''\<rparr>)) (two_sites {})))
      = [(3, SitesUpdate [(''s1'', ''Site-s1'', 0, 5), (''s2'', ''Site-s2'', 1, 2)] 2),
         (2, SitesUpdate [(''s1'', ''Site-s1'', 0, 5), (''s2'', ''Site-s2'', 1, 2)] 2),
         (3, Registered ''s1'' ''Welcome to LNK-22 WAN Bridge''),
         (3, SitesList [(''s2'', ''Site-s2'', 1)])]"
  by code_simp

text \<open>
  Claim C1, amended. A \<open>register\<close> with a non-empty site id on a connection that has not
  registered and is open is always accepted, whether the id is registered or not: the
  connection is identified by the id, the record under the id is a new one for this
  websocket (no nodes, counters at zero, both times now), the connection is sent the
  \<open>registered\<close> acknowledgement, and no error is sent to anyone.
\<close>

theorem register_replaces:
  assumes "msg_type m = Some ''register''" and "msg_site_id m = Some sid" and "sid \<noteq> []"
    and "ws \<notin> closed b" and "distinct (map fst (sites b))"
  shows "fst (handler_frame dumps msg_hash now ws None \<lparr>raw_length = n, decoded = Some m\<rparr> b)
           = Open (Some sid)
       \<and> map_of (sites (snd (handler_frame dumps msg_hash now ws None
              \<lparr>raw_length = n, decoded = Some m\<rparr> b))) sid
           = Some (new_site ws sid (get_default [] (msg_name m)) now)
       \<and> (ws, Registered sid ''Welcome to LNK-22 WAN Bridge'')
           \<in> set (delta b (snd (handler_frame dumps msg_hash now ws None
              \<lparr>raw_length = n, decoded = Some m\<rparr> b)))
       \<and> (\<forall>ws' e. (ws', ErrorMsg e)
           \<notin> set (delta b (snd (handler_frame dumps msg_hash now ws None
              \<lparr>raw_length = n, decoded = Some m\<rparr> b))))"
proof -
  let ?s = "new_site ws sid (get_default [] (msg_name m)) now"
  let ?b1 = "b\<lparr>sites := AList.update sid ?s (sites b)\<rparr>"
  let ?b2 = "broadcast_site_update ?b1"
  let ?b3 = "send ws (Registered sid ''Welcome to LNK-22 WAN Bridge'') ?b2"
  let ?l = "map (\<lambda>(k, s). (take 16 k, name s, card (nodes s))) (filter (\<lambda>(k, s). k \<noteq> sid) (sites ?b3))"
  let ?b4 = "send ws (SitesList ?l) ?b3"
  let ?r = "handler_frame dumps msg_hash now ws None \<lparr>raw_length = n, decoded = Some m\<rparr> b"
  have reg: "snd (register_site ws sid (get_default [] (msg_name m)) now b) = ?b2"
    by (simp add: register_site_def Let_def)
  have op: "\<not> send_raises ws ?b2" "\<not> send_raises ws ?b3"
    using assms(4) by (simp_all add: send_raises_def)
  have r: "?r = (Open (Some sid), ?b4)"
    using assms(1,2,3) op by (simp add: handler_frame_def handler_body_def reg Let_def)
  have d1: "distinct (map fst (sites ?b1))" using assms(5) by (simp add: distinct_update)
  have m1: "map_of (sites ?b1) sid = Some ?s" by (simp add: update_conv')
  have w1: "websocket ?s \<notin> closed ?b1" using assms(4) by (simp add: new_site_def)
  have m2: "map_of (sites ?b2) sid = Some ?s"
    by (rule broadcast_site_update_keeps_open[OF d1 m1 w1])
  have e12: "extends ?b1 ?b2" by (rule extends_broadcast_site_update)
  have "delta b ?b4 = delta ?b1 ?b4" by (rule delta_cong) simp
  also have "\<dots> = delta ?b1 ?b2 @ delta ?b2 ?b4"
    by (rule delta_trans[OF e12 extends_trans[OF extends_send extends_send]])
  also have "delta ?b2 ?b4 = delta ?b2 ?b3 @ delta ?b3 ?b4"
    by (rule delta_trans[OF extends_send extends_send])
  finally have dl: "delta b ?b4 = delta ?b1 ?b2 @
      [(ws, Registered sid ''Welcome to LNK-22 WAN Bridge''), (ws, SitesList ?l)]"
    by simp
  show ?thesis
  proof (intro conjI allI)
    show "fst ?r = Open (Some sid)" by (simp add: r)
    show "map_of (sites (snd ?r)) sid = Some ?s" using m2 by (simp add: r)
    show "(ws, Registered sid ''Welcome to LNK-22 WAN Bridge'') \<in> set (delta b (snd ?r))"
      unfolding r snd_conv dl by simp
    fix ws' e
    show "(ws', ErrorMsg e) \<notin> set (delta b (snd ?r))"
      unfolding r snd_conv dl using delta_broadcast_site_update[of ws' "ErrorMsg e" ?b1] by auto
  qed
qed

theorem register_replaces_witness:
  "''s1'' \<in> registered (two_sites {})
   \<and> fst (handler_frame dumps0 msg_payload 5 3 None
        \<lparr>raw_length = 40, decoded = Some ((msg ''register'')\<lparr>msg_site_id := Some ''s1''\<rparr>)\<rparr> (two_sites {}))
      = Open (Some ''s1'')
   \<and> map_of (sites (snd (handler_frame dumps0 msg_payload 5 3 None
        \<lparr>raw_length = 40, decoded = Some ((msg ''register'')\<lparr>msg_site_id := Some ''s1''\<rparr>)\<rparr> (two_sites {})))) ''s1''
      = Some (new_site 3 ''s1'' [] 5)
   \<and> (3, Registered ''s1'' ''Welcome to LNK-22 WAN Bridge'')
      \<in> set (delta (two_sites {}) (snd (handler_frame dumps0 msg_payload 5 3 None
        \<lparr>raw_length = 40, decoded = Some ((msg ''register'')\<lparr>msg_site_id := Some ''s1''\<rparr>)\<rparr> (two_sites {}))))"
proof -
  let ?m = "(msg ''register'')\<lparr>msg_site_id := Some ''s1''\<rparr>"
  have h: "msg_type ?m = Some ''register''" "msg_site_id ?m = Some ''s1''" "''s1'' \<noteq> []"
    "3 \<notin> closed (two_sites {})" "distinct (map fst (sites (two_sites {})))"
    by (simp_all add: msg_def two_sites_def)
  have g: "get_default [] (msg_name ?m) = []" by (simp add: msg_def)
  have r: "''s1'' \<in> registered (two_sites {})" by (simp add: registered_def two_sites_def)
  from register_replaces[OF h, of dumps0 msg_payload 5 40] g r show ?thesis by simp
qed

section \<open>Which messages count as liveness\<close>

text \<open>
  Claim C2, as the specification states it, has every inbound message of a registered
  site set its \<open>last_heartbeat\<close> to the current time. In the code only the \<open>heartbeat\<close>
  branch assigns \<open>last_heartbeat\<close>: site \<open>s1\<close>, last heard at second 1, sends a
  \<open>mesh_message\<close> at second 50, the message is forwarded to websocket 2, and the record
  of \<open>s1\<close> is what it was, last heard at second 1.
\<close>

theorem touch_on_every_message_counterexample:
  "map_of (sites (two_sites {})) ''s1'' = Some site_s1
   \<and> last_heartbeat site_s1 = 1
   \<and> fst (handle_message dumps0 msg_payload 50 ''s1''
        ((msg ''mesh_message'')\<lparr>msg_dest := Some ''0xBBB'', msg_payload := ''hi''\<rparr>) (two_sites {}))
      = Returned
   \<and> delta (two_sites {}) (snd (handle_message dumps0 msg_payload 50 ''s1''
        ((msg ''mesh_message'')\<lparr>msg_dest := Some ''0xBBB'', msg_payload := ''hi''\<rparr>) (two_sites {})))
      = [(2, Relayed ((msg ''mesh_message'')\<lparr>msg_dest := Some ''0xBBB'', msg_payload := ''hi''\<rparr>))]
   \<and> map_of (sites (snd (handle_message dumps0 msg_payload 50 ''s1''
        ((msg ''mesh_message'')\<lparr>msg_dest := Some ''0xBBB'', msg_payload := ''hi''\<rparr>) (two_sites {})))) ''s1''
      = Some site_s1"
  by code_simp

text \<open>
  Claim C2, amended. A \<open>heartbeat\<close> message of a registered site sets its
  \<open>last_heartbeat\<close> to the current time and changes nothing else. A message of any
  other kind leaves the \<open>last_heartbeat\<close> of every site that is registered afterwards as
  it was, the sender's included.
\<close>

theorem touch_on_heartbeat_only:
  "(msg_type m = Some ''heartbeat'' \<and> map_of (sites b) sid = Some s \<longrightarrow>
      handle_message dumps msg_hash now sid m b =
        (Returned, b\<lparr>sites := AList.update sid (s\<lparr>last_heartbeat := now\<rparr>) (sites b)\<rparr>)
      \<and> map_of (sites (snd (handle_message dumps msg_hash now sid m b))) sid
          = Some (s\<lparr>last_heartbeat := now\<rparr>))
   \<and> (msg_type m \<noteq> Some ''heartbeat'' \<longrightarrow>
        (\<forall>k s'. map_of (sites (snd (handle_message dumps msg_hash now sid m b))) k = Some s' \<longrightarrow>
           (\<exists>s0. map_of (sites b) k = Some s0 \<and> last_heartbeat s' = last_heartbeat s0)))"
proof (intro conjI impI)
  assume a: "msg_type m = Some ''heartbeat'' \<and> map_of (sites b) sid = Some s"
  then show "handle_message dumps msg_hash now sid m b =
        (Returned, b\<lparr>sites := AList.update sid (s\<lparr>last_heartbeat := now\<rparr>) (sites b)\<rparr>)"
    by (simp add: handle_message_heartbeat)
  then show "map_of (sites (snd (handle_message dumps msg_hash now sid m b))) sid
          = Some (s\<lparr>last_heartbeat := now\<rparr>)"
    by (simp add: update_conv')
next
  assume "msg_type m \<noteq> Some ''heartbeat''"
  then have "keeps last_heartbeat b (snd (handle_message dumps msg_hash now sid m b))"
    by (intro keeps_handle_message) simp_all
  then show "\<forall>k s'. map_of (sites (snd (handle_message dumps msg_hash now sid m b))) k = Some s' \<longrightarrow>
           (\<exists>s0. map_of (sites b) k = Some s0 \<and> last_heartbeat s' = last_heartbeat s0)"
    by (simp add: keeps_def)
qed

theorem touch_on_heartbeat_only_witness:
  "map_of (sites (two_sites {})) ''s1'' = Some site_s1
   \<and> last_heartbeat site_s1 = 1
   \<and> map_of (sites (snd (handle_message dumps0 msg_payload 50 ''s1'' (msg ''heartbeat'') (two_sites {})))) ''s1''
     = Some (site_s1\<lparr>last_heartbeat := 50\<rparr>)
   \<and> map_of (sites (snd (handle_message dumps0 msg_payload 50 ''s1''
        ((msg ''nodes_update'')\<lparr>msg_nodes := Some [''0xCCC'']\<rparr>) (two_sites {})))) ''s1''
     = Some (site_s1\<lparr>nodes := {''0xCCC''}\<rparr>)
   \<and> (\<exists>s0. map_of (sites (two_sites {})) ''s1'' = Some s0
         \<and> last_heartbeat (site_s1\<lparr>nodes := {''0xCCC''}\<rparr>) = last_heartbeat s0)"
proof -
  let ?n = "(msg ''nodes_update'')\<lparr>msg_nodes := Some [''0xCCC'']\<rparr>"
  have t: "msg_type (msg ''heartbeat'') = Some ''heartbeat''" by (simp add: msg_def)
  have s: "map_of (sites (two_sites {})) ''s1'' = Some site_s1" by (simp add: two_sites_def)
  have n: "msg_type ?n \<noteq> Some ''heartbeat''" by (simp add: msg_def)
  have e: "map_of (sites (snd (handle_message dumps0 msg_payload 50 ''s1'' ?n (two_sites {})))) ''s1''
      = Some (site_s1\<lparr>nodes := {''0xCCC''}\<rparr>)"
    by (simp add: handle_message_nodes_update msg_def update_routing_def two_sites_def Let_def)
  have l: "last_heartbeat site_s1 = 1" by (simp add: site_s1_def)
  have h: "map_of (sites (snd (handle_message dumps0 msg_payload 50 ''s1'' (msg ''heartbeat'') (two_sites {})))) ''s1''
     = Some (site_s1\<lparr>last_heartbeat := 50\<rparr>)"
    using touch_on_heartbeat_only[of "msg ''heartbeat''" "two_sites {}" "''s1''" site_s1 dumps0 msg_payload 50]
      t s by blast
  have k: "\<exists>s0. map_of (sites (two_sites {})) ''s1'' = Some s0
         \<and> last_heartbeat (site_s1\<lparr>nodes := {''0xCCC''}\<rparr>) = last_heartbeat s0"
    using touch_on_heartbeat_only[of ?n "two_sites {}" "''s1''" site_s1 dumps0 msg_payload 50] n e
    by blast
  from s l h e k show ?thesis by blast
qed

section \<open>The routing table\<close>

text \<open>
  Claim C3, as the specification states it, has an address that a site leaves out of a
  later \<open>nodes_update\<close> stop resolving to that site. \<open>update_routing\<close> replaces the
  node set of the site, but in the routing table it only assigns: site \<open>s1\<close>, which had
  reported \<open>0xAAA\<close>, reports \<open>0xCCC\<close> alone, its node set becomes \<open>{0xCCC}\<close>, and \<open>0xAAA\<close>
  still resolves to \<open>s1\<close>.
\<close>

theorem routing_dropped_address_counterexample:
  "handle_message dumps0 msg_payload 5 ''s1'' ((msg ''nodes_update'')\<lparr>msg_nodes := Some [''0xCCC'']\<rparr>) (two_sites {})
     = (Returned, update_routing ''s1'' [''0xCCC''] (two_sites {}))
   \<and> map_of (sites (update_routing ''s1'' [''0xCCC''] (two_sites {}))) ''s1'' = Some (site_s1\<lparr>nodes := {''0xCCC''}\<rparr>)
   \<and> ''0xAAA'' \<notin> nodes (site_s1\<lparr>nodes := {''0xCCC''}\<rparr>)
   \<and> find_route ''0xAAA'' (update_routing ''s1'' [''0xCCC''] (two_sites {})) = Some ''s1''"
  by (simp add: handle_message_def msg_def get_default_def update_routing_def two_sites_def
      find_route_def Let_def)

text \<open>
  Claim C3, amended. A \<open>nodes_update\<close> makes every address of its list resolve to the
  reporting site, whoever owned it before, and leaves every other address as it
  resolved, also those the site had reported earlier. Unregistering a registered site
  makes every address that resolved to it absent, and unregistering never makes an
  address resolve to another site than before. So when \<open>A\<close> reports \<open>n\<close> and then \<open>B\<close>
  reports \<open>n\<close>, \<open>n\<close> resolves to \<open>B\<close>, and to nothing after \<open>B\<close> is unregistered.
\<close>

theorem routing_last_writer:
  "(n \<in> set node_list \<longrightarrow> find_route n (update_routing sid node_list b) = Some sid)
   \<and> (n \<notin> set node_list \<longrightarrow> find_route n (update_routing sid node_list b) = find_route n b)
   \<and> (sid \<in> registered b \<and> find_route n b = Some sid \<longrightarrow> find_route n (unregister_site sid b) = None)
   \<and> (find_route n (unregister_site sid b) = None
        \<or> find_route n (unregister_site sid b) = find_route n b)
   \<and> (n \<in> set node_list \<longrightarrow>
        find_route n (update_routing sid node_list (update_routing sid_a nodes_a b)) = Some sid)
   \<and> (n \<in> set node_list \<and> sid \<in> registered b \<longrightarrow>
        find_route n (unregister_site sid (update_routing sid node_list (update_routing sid_a nodes_a b))) = None)"
proof -
  have unreg: "find_route n (unregister_site sid c) = None"
    if "sid \<in> registered c" "find_route n c = Some sid" for c
    using that routing_unregister(1)[of sid c n] unregister_site_removes[of sid c]
    by (simp add: find_route_def)
  have keep: "find_route n (unregister_site sid b) = None
        \<or> find_route n (unregister_site sid b) = find_route n b"
    using routing_unregister(1)[of sid b n] by (auto simp: find_route_def split: option.splits)
  show ?thesis
    using unreg[of b] keep
      unreg[of "update_routing sid node_list (update_routing sid_a nodes_a b)"]
    by (simp add: find_route_def routing_table_update_routing)
qed

theorem routing_last_writer_witness:
  "find_route ''0xAAA'' (two_sites {}) = Some ''s1''
   \<and> find_route ''0xAAA'' (update_routing ''s2'' [''0xAAA''] (two_sites {})) = Some ''s2''
   \<and> find_route ''0xBBB'' (update_routing ''s2'' [''0xAAA''] (two_sites {})) = Some ''s2''
   \<and> find_route ''0xAAA'' (unregister_site ''s1'' (two_sites {})) = None
   \<and> find_route ''0xAAA''
        (unregister_site ''s2'' (update_routing ''s2'' [''0xAAA''] (update_routing ''s1'' [''0xAAA''] (two_sites {})))) = None"
proof -
  have h0: "find_route ''0xAAA'' (two_sites {}) = Some ''s1''"
    and h0b: "find_route ''0xBBB'' (two_sites {}) = Some ''s2''"
    by (simp_all add: find_route_def two_sites_def)
  have h1: "''0xAAA'' \<in> set [''0xAAA'']" and h2: "''0xBBB'' \<notin> set [''0xAAA'']" by simp_all
  have r1: "''s1'' \<in> registered (two_sites {})" and r2: "''s2'' \<in> registered (two_sites {})"
    by (simp_all add: registered_def two_sites_def)
  from routing_last_writer[of "''0xAAA''" "[''0xAAA'']" "''s2''" "two_sites {}" "''s1''" "[''0xAAA'']"]
    routing_last_writer[of "''0xBBB''" "[''0xAAA'']" "''s2''" "two_sites {}"]
    routing_last_writer[of "''0xAAA''" "[]" "''s1''" "two_sites {}"]
    h0 h0b h1 h2 r1 r2
  show ?thesis by simp
qed

section \<open>No echo\<close>

text \<open>
  Claim C5. Whatever message a registered site sends, the bridge forwards it (as a
  relayed message) only to websockets of registered sites with another id than the
  sender's, be it the one resolved site of a unicast or the sites of a broadcast; with
  every site on a websocket of its own, as the handler registers them, it never goes
  to the websocket of the sender. The message forwarded is the one received.
\<close>

theorem no_echo:
  assumes "distinct (map (websocket \<circ> snd) (sites b))"
    and "map_of (sites b) sid = Some s"
    and "(ws, Relayed m') \<in> set (delta b (snd (handle_message dumps msg_hash now sid m b)))"
  shows "ws \<noteq> websocket s \<and> m' = m
       \<and> (\<exists>k s'. (k, s') \<in> set (sites b) \<and> k \<noteq> sid \<and> websocket s' = ws)"
proof -
  from delta_handle_message[OF assms(3)]
  obtain k s' where m: "m' = m" and k: "(k, s') \<in> set (sites b)" "k \<noteq> sid" "websocket s' = ws"
    by auto
  have "(sid, s) \<in> set (sites b)" using assms(2) by (rule map_of_SomeD)
  moreover have "inj_on (websocket \<circ> snd) (set (sites b))"
    using assms(1) by (simp add: distinct_map)
  ultimately have "websocket s' \<noteq> websocket s"
    using k(1,2) inj_onD[of "websocket \<circ> snd" "set (sites b)" "(k, s')" "(sid, s)"] by auto
  with m k show ?thesis by blast
qed

text \<open>
  Site \<open>s1\<close> sends a message for \<open>0xBBB\<close>, which goes to websocket 2 alone, and a message
  without destination, which goes to websocket 2 alone as well.
\<close>

theorem no_echo_witness:
  "delta (two_sites {}) (snd (handle_message dumps0 msg_payload 5 ''s1''
       ((msg ''mesh_message'')\<lparr>msg_dest := Some ''0xBBB'', msg_payload := ''hi''\<rparr>) (two_sites {})))
     = [(2, Relayed ((msg ''mesh_message'')\<lparr>msg_dest := Some ''0xBBB'', msg_payload := ''hi''\<rparr>))]
   \<and> delta (two_sites {}) (snd (handle_message dumps0 msg_payload 5 ''s1''
       ((msg ''mesh_message'')\<lparr>msg_payload := ''all''\<rparr>) (two_sites {})))
     = [(2, Relayed ((msg ''mesh_message'')\<lparr>msg_payload := ''all''\<rparr>))]
   \<and> 2 \<noteq> websocket site_s1"
proof -
  let ?m = "(msg ''mesh_message'')\<lparr>msg_dest := Some ''0xBBB'', msg_payload := ''hi''\<rparr>"
  let ?n = "(msg ''mesh_message'')\<lparr>msg_payload := ''all''\<rparr>"
  have d: "distinct (map (websocket \<circ> snd) (sites (two_sites {})))"
    by (simp add: two_sites_def site_s1_def site_s2_def)
  have s: "map_of (sites (two_sites {})) ''s1'' = Some site_s1" by (simp add: two_sites_def)
  have e1: "delta (two_sites {}) (snd (handle_message dumps0 msg_payload 5 ''s1'' ?m (two_sites {})))
     = [(2, Relayed ?m)]" by code_simp
  have e2: "delta (two_sites {}) (snd (handle_message dumps0 msg_payload 5 ''s1'' ?n (two_sites {})))
     = [(2, Relayed ?n)]" by code_simp
  have "(2, Relayed ?m) \<in> set (delta (two_sites {}) (snd (handle_message dumps0 msg_payload 5 ''s1'' ?m (two_sites {}))))"
    unfolding e1 by simp
  from no_echo[OF d s this] e1 e2 show ?thesis by simp
qed

section \<open>Heartbeat eviction\<close>

lemma heartbeat_checker_clock: "fst (heartbeat_checker k clock b) = clock + 30 * real k"
  by (induction k arbitrary: clock b) (simp_all add: algebra_simps)

lemma heartbeat_checker_Suc:
  "snd (heartbeat_checker (Suc k) clock b)
     = heartbeat_check (clock + 30 * real (Suc k)) (snd (heartbeat_checker k clock b))"
proof (induction k arbitrary: clock b)
  case 0
  show ?case by simp
next
  case (Suc k)
  have "snd (heartbeat_checker (Suc (Suc k)) clock b)
      = snd (heartbeat_checker (Suc k) (clock + 30) (heartbeat_check (clock + 30) b))" by simp
  also have "\<dots> = heartbeat_check (clock + 30 + 30 * real (Suc k))
      (snd (heartbeat_checker k (clock + 30) (heartbeat_check (clock + 30) b)))"
    by (rule Suc)
  also have "clock + 30 + 30 * real (Suc k) = clock + 30 * real (Suc (Suc k))" by simp
  finally show ?case by simp
qed

text \<open>
  Claim C6. The passes of the heartbeat checker are 30 seconds of sleep apart: its
  iteration \<open>k + 1\<close> is one pass, at the clock reading \<open>30 * (k + 1)\<close> seconds after the
  start. In one pass, in a registry where every site has its own id and its own websocket:
  every site whose last heartbeat is more than 90 seconds old is unregistered and no
  route is left to it; for every site that is gone after the pass, each site that is
  still registered was sent the \<open>site_left\<close> of the gone site exactly once, on a
  websocket that is open, so it arrived, and was sent no \<open>site_left\<close> for it under
  another name; and a site whose heartbeat is recent and whose websocket is open
  stays registered.
\<close>

theorem heartbeat_eviction:
  assumes "distinct (map fst (sites b))" and "distinct (map (websocket \<circ> snd) (sites b))"
  shows "(\<forall>(sid, s) \<in> set (sites b). now - last_heartbeat s > 90 \<longrightarrow>
            sid \<notin> registered (heartbeat_check now b)
            \<and> (\<forall>n. find_route n (heartbeat_check now b) \<noteq> Some sid))
       \<and> (\<forall>X x R r. map_of (sites b) X = Some x \<and> X \<notin> registered (heartbeat_check now b)
              \<and> (R, r) \<in> set (sites (heartbeat_check now b)) \<longrightarrow>
            count_list (delta b (heartbeat_check now b)) (websocket r, SiteLeft X (name x)) = 1
            \<and> websocket r \<notin> closed b
            \<and> (\<forall>nm. (websocket r, SiteLeft X nm) \<in> set (delta b (heartbeat_check now b)) \<longrightarrow> nm = name x))
       \<and> (\<forall>X s. (X, s) \<in> set (sites b) \<and> now - last_heartbeat s \<le> 90 \<and> websocket s \<notin> closed b \<longrightarrow>
            (X, s) \<in> set (sites (heartbeat_check now b)))
       \<and> snd (heartbeat_checker (Suc k) clock c)
            = heartbeat_check (clock + 30 * real (Suc k)) (snd (heartbeat_checker k clock c))"
proof -
  let ?b' = "heartbeat_check now b"
  have inj: "inj_on (websocket \<circ> snd) (set (sites b))" using assms(2) by (simp add: distinct_map)
  have sub: "sub_registry b ?b'" unfolding heartbeat_check_def by (rule heartbeat_loop_sub_registry)
  have stale: "sid \<notin> registered ?b' \<and> (\<forall>n. find_route n ?b' \<noteq> Some sid)"
    if "(sid, s) \<in> set (sites b)" "now - last_heartbeat s > 90" for sid s
  proof -
    have gone: "sid \<notin> registered ?b'"
      unfolding heartbeat_check_def using that by (rule heartbeat_loop_stale)
    have "sid \<in> registered b" using that(1) by (force simp: registered_def)
    with gone have "find_route n ?b' \<noteq> Some sid" for n
      using heartbeat_loop_routing[of now "sites b" b n]
      by (auto simp: find_route_def heartbeat_check_def split: option.splits if_splits)
    with gone show ?thesis by blast
  qed
  have once: "count_list (delta b ?b') (websocket r, SiteLeft X (name x)) = 1
      \<and> websocket r \<notin> closed b
      \<and> (\<forall>nm. (websocket r, SiteLeft X nm) \<in> set (delta b ?b') \<longrightarrow> nm = name x)"
    if X: "map_of (sites b) X = Some x" "X \<notin> registered ?b'" and R: "(R, r) \<in> set (sites ?b')" for X x R r
  proof -
    have c: "count_list (delta b ?b') (websocket r, SiteLeft X (name x)) = 1"
      unfolding heartbeat_check_def
      by (rule heartbeat_loop_once[OF inj assms(1) sub_registry_refl X(1)])
         (use X(2) R in \<open>simp_all add: heartbeat_check_def\<close>)
    then have "(websocket r, SiteLeft X (name x)) \<in> set (delta b ?b')"
      using count_list_0_iff[of "delta b ?b'" "(websocket r, SiteLeft X (name x))"] by simp
    then have o: "websocket r \<notin> closed b"
      unfolding heartbeat_check_def
      by (intro heartbeat_loop_reached_open[OF inj sub_registry_refl, of R r now "sites b"])
         (use R in \<open>simp_all add: heartbeat_check_def\<close>)
    have n: "nm = name x" if "(websocket r, SiteLeft X nm) \<in> set (delta b ?b')" for nm
      using heartbeat_loop_origin[OF that[unfolded heartbeat_check_def]] X(1) by auto
    from c o n show ?thesis by blast
  qed
  have stay: "(X, s) \<in> set (sites ?b')"
    if "(X, s) \<in> set (sites b)" "now - last_heartbeat s \<le> 90" "websocket s \<notin> closed b" for X s
  proof -
    have m: "map_of (sites b) X = Some s" using that(1) assms(1) by (simp add: map_of_eq_Some_iff)
    have "X \<in> registered ?b'"
    proof (rule ccontr)
      assume "X \<notin> registered ?b'"
      then have "X \<notin> registered (heartbeat_loop now (sites b) b)" by (simp add: heartbeat_check_def)
      from heartbeat_loop_removed[OF map_of_in_registered[OF m] this]
      obtain s' where "(X, s') \<in> set (sites b)" "now - last_heartbeat s' > 90 \<or> websocket s' \<in> closed b"
        by auto
      moreover from this(1) have "s' = s" using m assms(1) by (simp add: map_of_eq_Some_iff)
      ultimately show False using that(2,3) by auto
    qed
    then have "map_of (sites ?b') X = Some s" using m by (simp add: sub_registry_map_of[OF sub])
    then show ?thesis by (rule map_of_SomeD)
  qed
  show ?thesis using stale once stay heartbeat_checker_Suc[of k clock c] by blast
qed

text \<open>
  At second 92 the heartbeat of \<open>s1\<close> is 91 seconds old and that of \<open>s2\<close> is 90: \<open>s1\<close> is
  unregistered, \<open>0xAAA\<close> resolves to nothing, and \<open>s2\<close> stays and is sent one \<open>site_left\<close>.
  That is the first pass of a checker started at second 62.
\<close>

theorem heartbeat_eviction_witness:
  "(''s1'', site_s1) \<in> set (sites (two_sites {})) \<and> 92 - last_heartbeat site_s1 > 90
   \<and> ''s1'' \<notin> registered (heartbeat_check 92 (two_sites {}))
   \<and> find_route ''0xAAA'' (heartbeat_check 92 (two_sites {})) \<noteq> Some ''s1''
   \<and> (''s2'', site_s2) \<in> set (sites (heartbeat_check 92 (two_sites {})))
   \<and> count_list (delta (two_sites {}) (heartbeat_check 92 (two_sites {})))
         (websocket site_s2, SiteLeft ''s1'' (name site_s1)) = 1
   \<and> delta (two_sites {}) (heartbeat_check 92 (two_sites {})) = [(2, SiteLeft ''s1'' ''Site-s1'')]
   \<and> delta (two_sites {}) (snd (heartbeat_checker 1 62 (two_sites {}))) = [(2, SiteLeft ''s1'' ''Site-s1'')]"
proof -
  have d: "distinct (map fst (sites (two_sites {})))"
    "distinct (map (websocket \<circ> snd) (sites (two_sites {})))"
    by (simp_all add: two_sites_def site_s1_def site_s2_def)
  have s1: "(''s1'', site_s1) \<in> set (sites (two_sites {}))" "92 - last_heartbeat site_s1 > 90"
    "map_of (sites (two_sites {})) ''s1'' = Some site_s1"
    by (simp_all add: two_sites_def site_s1_def)
  have s2: "(''s2'', site_s2) \<in> set (sites (two_sites {})) \<and> 92 - last_heartbeat site_s2 \<le> 90
      \<and> websocket site_s2 \<notin> closed (two_sites {})"
    by (simp add: two_sites_def site_s2_def)
  have e: "delta (two_sites {}) (heartbeat_check 92 (two_sites {})) = [(2, SiteLeft ''s1'' ''Site-s1'')]"
    by code_simp
  note h = heartbeat_eviction[OF d, of 92 0 0 "two_sites {}"]
  from h have "\<forall>(sid, s) \<in> set (sites (two_sites {})). 92 - last_heartbeat s > 90 \<longrightarrow>
            sid \<notin> registered (heartbeat_check 92 (two_sites {}))
            \<and> (\<forall>n. find_route n (heartbeat_check 92 (two_sites {})) \<noteq> Some sid)"
    by (elim conjE)
  with s1(1,2) have gone: "''s1'' \<notin> registered (heartbeat_check 92 (two_sites {}))"
    "find_route ''0xAAA'' (heartbeat_check 92 (two_sites {})) \<noteq> Some ''s1''"
    by blast+
  from h have "\<forall>X s. (X, s) \<in> set (sites (two_sites {})) \<and> 92 - last_heartbeat s \<le> 90
      \<and> websocket s \<notin> closed (two_sites {}) \<longrightarrow> (X, s) \<in> set (sites (heartbeat_check 92 (two_sites {})))"
    by (elim conjE)
  with s2 have stays: "(''s2'', site_s2) \<in> set (sites (heartbeat_check 92 (two_sites {})))" by blast
  from h have "\<forall>X x R r. map_of (sites (two_sites {})) X = Some x \<and> X \<notin> registered (heartbeat_check 92 (two_sites {}))
              \<and> (R, r) \<in> set (sites (heartbeat_check 92 (two_sites {}))) \<longrightarrow>
            count_list (delta (two_sites {}) (heartbeat_check 92 (two_sites {}))) (websocket r, SiteLeft X (name x)) = 1
            \<and> websocket r \<notin> closed (two_sites {})
            \<and> (\<forall>nm. (websocket r, SiteLeft X nm) \<in> set (delta (two_sites {}) (heartbeat_check 92 (two_sites {}))) \<longrightarrow> nm = name x)"
    by (elim conjE)
  with s1(3) gone(1) stays
  have once: "count_list (delta (two_sites {}) (heartbeat_check 92 (two_sites {})))
         (websocket site_s2, SiteLeft ''s1'' (name site_s1)) = 1" by blast
  have c: "delta (two_sites {}) (snd (heartbeat_checker 1 62 (two_sites {}))) = [(2, SiteLeft ''s1'' ''Site-s1'')]"
    using e by simp
  from s1(1,2) gone stays once e c show ?thesis by blast
qed

section \<open>The relay counters\<close>

text \<open>
  Claim C7, as the specification states it, has the counters of the sending site grow
  with every forward. The only place that counts is \<open>relay_to_site\<close>, and it counts on the
  record of the site it sends to: \<open>s1\<close> sends a new message for \<open>0xBBB\<close>, which is
  forwarded to \<open>s2\<close>, and the counters of \<open>s1\<close> stay 0 while those of \<open>s2\<close> become 1
  message and 10 bytes; \<open>s1\<close> sends a new message without destination, which is
  broadcast to \<open>s2\<close>, and no counter of any site moves.
\<close>

theorem sender_counters_counterexample:
  "fst (deduplicate_message msg_payload 5
      ((msg ''mesh_message'')\<lparr>msg_dest := Some ''0xBBB'', msg_payload := ''hi''\<rparr>) (two_sites {})) = True
   \<and> delta (two_sites {}) (snd (handle_message dumps0 msg_payload 5 ''s1''
        ((msg ''mesh_message'')\<lparr>msg_dest := Some ''0xBBB'', msg_payload := ''hi''\<rparr>) (two_sites {})))
      = [(2, Relayed ((msg ''mesh_message'')\<lparr>msg_dest := Some ''0xBBB'', msg_payload := ''hi''\<rparr>))]
   \<and> sites (snd (handle_message dumps0 msg_payload 5 ''s1''
          ((msg ''mesh_message'')\<lparr>msg_dest := Some ''0xBBB'', msg_payload := ''hi''\<rparr>) (two_sites {})))
      = [(''s1'', site_s1), (''s2'', site_s2\<lparr>messages_relayed := 1, bytes_relayed := 10\<rparr>)]
   \<and> messages_relayed site_s1 = 0 \<and> bytes_relayed site_s1 = 0
   \<and> fst (deduplicate_message msg_payload 5
      ((msg ''mesh_message'')\<lparr>msg_payload := ''all''\<rparr>) (two_sites {})) = True
   \<and> delta (two_sites {}) (snd (handle_message dumps0 msg_payload 5 ''s1''
        ((msg ''mesh_message'')\<lparr>msg_payload := ''all''\<rparr>) (two_sites {})))
      = [(2, Relayed ((msg ''mesh_message'')\<lparr>msg_payload := ''all''\<rparr>))]
   \<and> sites (snd (handle_message dumps0 msg_payload 5 ''s1''
          ((msg ''mesh_message'')\<lparr>msg_payload := ''all''\<rparr>) (two_sites {})))
      = [(''s1'', site_s1), (''s2'', site_s2)]"
  by code_simp

text \<open>
  Claim C7, amended. For a \<open>mesh_message\<close>: a duplicate changes neither the global
  counter nor any site nor the log; a new message adds exactly one to the global
  counter. The record of the sender is never changed. When the message is new, has a
  destination that resolves to another site, and the send to that site goes through,
  the record of that site, and no other, gets one message and the length of the dumped
  message added. In every other case (broadcast, or a unicast whose send raises) no
  record of a site that stays registered changes.
\<close>

theorem relay_counters:
  assumes "msg_type m = Some ''mesh_message''"
  shows "(\<not> fst (deduplicate_message msg_hash now m b) \<longrightarrow>
            total_messages (snd (handle_message dumps msg_hash now sid m b)) = total_messages b
            \<and> sites (snd (handle_message dumps msg_hash now sid m b)) = sites b
            \<and> sent (snd (handle_message dumps msg_hash now sid m b)) = sent b)
       \<and> (fst (deduplicate_message msg_hash now m b) \<longrightarrow>
            total_messages (snd (handle_message dumps msg_hash now sid m b)) = total_messages b + 1)
       \<and> (\<forall>s s'. map_of (sites b) sid = Some s
              \<and> map_of (sites (snd (handle_message dumps msg_hash now sid m b))) sid = Some s' \<longrightarrow> s' = s)
       \<and> (\<forall>dest t st. fst (deduplicate_message msg_hash now m b) \<and> msg_dest m = Some dest \<and> dest \<noteq> []
              \<and> find_route dest b = Some t \<and> t \<noteq> [] \<and> t \<noteq> sid
              \<and> map_of (sites b) t = Some st \<and> websocket st \<notin> closed b \<longrightarrow>
            map_of (sites (snd (handle_message dumps msg_hash now sid m b))) t
              = Some (st\<lparr>messages_relayed := messages_relayed st + 1,
                         bytes_relayed := bytes_relayed st + int (length (dumps (Relayed m)))\<rparr>)
            \<and> (\<forall>k. k \<noteq> t \<longrightarrow>
                  map_of (sites (snd (handle_message dumps msg_hash now sid m b))) k = map_of (sites b) k))
       \<and> (\<not> (\<exists>dest t st. fst (deduplicate_message msg_hash now m b) \<and> msg_dest m = Some dest \<and> dest \<noteq> []
              \<and> find_route dest b = Some t \<and> t \<noteq> [] \<and> t \<noteq> sid
              \<and> map_of (sites b) t = Some st \<and> websocket st \<notin> closed b) \<longrightarrow>
            (\<forall>k s'. map_of (sites (snd (handle_message dumps msg_hash now sid m b))) k = Some s' \<longrightarrow>
               map_of (sites b) k = Some s'))"
proof -
  let ?d = "deduplicate_message msg_hash now m b"
  let ?b1 = "snd ?d"
  let ?b2 = "?b1\<lparr>total_messages := total_messages ?b1 + 1\<rparr>"
  let ?b' = "snd (handle_message dumps msg_hash now sid m b)"
  let ?uni = "\<lambda>dest t st. msg_dest m = Some dest \<and> dest \<noteq> [] \<and> find_route dest b = Some t \<and> t \<noteq> []
      \<and> t \<noteq> sid \<and> map_of (sites b) t = Some st \<and> websocket st \<notin> closed b"
  have hm: "?b' = (if fst ?d then forward dumps sid m ?b2 else ?b1)"
    using assms by (simp add: handle_message_mesh_message)
  have s2: "sites ?b2 = sites b" "closed ?b2 = closed b" "total_messages ?b2 = total_messages b + 1"
    by simp_all
  have dup: "\<not> fst ?d \<longrightarrow> total_messages ?b' = total_messages b \<and> sites ?b' = sites b \<and> sent ?b' = sent b"
    using hm by simp
  have new: "fst ?d \<longrightarrow> total_messages ?b' = total_messages b + 1"
    using hm by simp
  have uni: "map_of (sites ?b') k =
      (if k = t then Some (st\<lparr>messages_relayed := messages_relayed st + 1,
                             bytes_relayed := bytes_relayed st + int (length (dumps (Relayed m)))\<rparr>)
       else map_of (sites b) k)"
    if "fst ?d" "?uni dest t st" for dest t st k
  proof -
    from that have "forward dumps sid m ?b2 = snd (relay_to_site dumps t (Relayed m) ?b2)"
      by (intro forward_unicast[of m dest]) (simp_all add: find_route_def)
    moreover have "map_of (sites ?b2) t = Some st" "websocket st \<notin> closed ?b2"
      using that by simp_all
    ultimately show ?thesis using hm that(1) relay_to_site_delivered[of ?b2 t st dumps "Relayed m" k]
      by simp
  qed
  have rest: "map_of (sites b) k = Some s'"
    if "\<not> (\<exists>dest t st. fst ?d \<and> ?uni dest t st)" "map_of (sites ?b') k = Some s'" for k s'
  proof (cases "fst ?d")
    case False
    with that(2) hm show ?thesis by simp
  next
    case True
    have "sub_registry ?b2 (forward dumps sid m ?b2)"
    proof (cases "\<exists>dest t. msg_dest m = Some dest \<and> dest \<noteq> [] \<and> find_route dest ?b2 = Some t \<and> t \<noteq> [] \<and> t \<noteq> sid")
      case False
      then have "forward dumps sid m ?b2 = broadcast (Relayed m) (Some sid) ?b2"
        by (rule forward_broadcast)
      then show ?thesis by (simp add: broadcast_def sub_registry_unregister(2))
    next
      case True
      then obtain dest t where t: "msg_dest m = Some dest" "dest \<noteq> []" "find_route dest ?b2 = Some t"
        "t \<noteq> []" "t \<noteq> sid" by blast
      then have f: "forward dumps sid m ?b2 = snd (relay_to_site dumps t (Relayed m) ?b2)"
        by (rule forward_unicast)
      have "map_of (sites ?b2) t = None \<or> (\<exists>st. map_of (sites ?b2) t = Some st \<and> websocket st \<in> closed ?b2)"
        using that(1) \<open>fst ?d\<close> t by (cases "map_of (sites b) t") (auto simp: find_route_def)
      then show ?thesis unfolding f by (rule relay_to_site_failed)
    qed
    from sub_registry_map_of[OF this, of k] that(2) hm True show ?thesis
      by (simp split: if_splits)
  qed
  have sender: "s' = s" if "map_of (sites b) sid = Some s" "map_of (sites ?b') sid = Some s'" for s s'
  proof (cases "\<exists>dest t st. fst ?d \<and> ?uni dest t st")
    case True
    then obtain dest t st where u: "fst ?d" "?uni dest t st" by blast
    then have "t \<noteq> sid" by simp
    with uni[OF u, of sid] that show ?thesis by simp
  next
    case False
    from rest[OF False that(2)] that(1) show ?thesis by simp
  qed
  show ?thesis
  proof (intro conjI)
    show "\<not> fst ?d \<longrightarrow> total_messages ?b' = total_messages b \<and> sites ?b' = sites b \<and> sent ?b' = sent b"
      by (rule dup)
    show "fst ?d \<longrightarrow> total_messages ?b' = total_messages b + 1" by (rule new)
    show "\<forall>s s'. map_of (sites b) sid = Some s \<and> map_of (sites ?b') sid = Some s' \<longrightarrow> s' = s"
      using sender by blast
    show "\<forall>dest t st. fst ?d \<and> msg_dest m = Some dest \<and> dest \<noteq> []
              \<and> find_route dest b = Some t \<and> t \<noteq> [] \<and> t \<noteq> sid
              \<and> map_of (sites b) t = Some st \<and> websocket st \<notin> closed b \<longrightarrow>
            map_of (sites ?b') t
              = Some (st\<lparr>messages_relayed := messages_relayed st + 1,
                         bytes_relayed := bytes_relayed st + int (length (dumps (Relayed m)))\<rparr>)
            \<and> (\<forall>k. k \<noteq> t \<longrightarrow> map_of (sites ?b') k = map_of (sites b) k)"
    proof (intro allI impI)
      fix dest t st
      assume a: "fst ?d \<and> msg_dest m = Some dest \<and> dest \<noteq> []
              \<and> find_route dest b = Some t \<and> t \<noteq> [] \<and> t \<noteq> sid
              \<and> map_of (sites b) t = Some st \<and> websocket st \<notin> closed b"
      then have f: "fst ?d" and u: "?uni dest t st" by blast+
      have "map_of (sites ?b') k =
        (if k = t then Some (st\<lparr>messages_relayed := messages_relayed st + 1,
                             bytes_relayed := bytes_relayed st + int (length (dumps (Relayed m)))\<rparr>)
         else map_of (sites b) k)" for k
        by (rule uni[OF f u])
      then show "map_of (sites ?b') t
              = Some (st\<lparr>messages_relayed := messages_relayed st + 1,
                         bytes_relayed := bytes_relayed st + int (length (dumps (Relayed m)))\<rparr>)
            \<and> (\<forall>k. k \<noteq> t \<longrightarrow> map_of (sites ?b') k = map_of (sites b) k)"
        by simp
    qed
    show "\<not> (\<exists>dest t st. fst ?d \<and> msg_dest m = Some dest \<and> dest \<noteq> []
              \<and> find_route dest b = Some t \<and> t \<noteq> [] \<and> t \<noteq> sid
              \<and> map_of (sites b) t = Some st \<and> websocket st \<notin> closed b) \<longrightarrow>
            (\<forall>k s'. map_of (sites ?b') k = Some s' \<longrightarrow> map_of (sites b) k = Some s')"
      using rest by blast
  qed
qed

text \<open>
  The end-to-end scenario: \<open>s1\<close> sends a message for \<open>0xBBB\<close> at second 5, the global
  counter becomes 1 and the counters of \<open>s2\<close> become 1 message and 10 bytes; \<open>s1\<close> sends
  the same message again at second 6, a duplicate, and the global counter stays 1.
\<close>

theorem relay_counters_witness:
  "fst (deduplicate_message msg_payload 5
      ((msg ''mesh_message'')\<lparr>msg_dest := Some ''0xBBB'', msg_payload := ''hi''\<rparr>) (two_sites {}))
   \<and> total_messages (snd (handle_message dumps0 msg_payload 5 ''s1''
        ((msg ''mesh_message'')\<lparr>msg_dest := Some ''0xBBB'', msg_payload := ''hi''\<rparr>) (two_sites {}))) = 1
   \<and> map_of (sites (snd (handle_message dumps0 msg_payload 5 ''s1''
        ((msg ''mesh_message'')\<lparr>msg_dest := Some ''0xBBB'', msg_payload := ''hi''\<rparr>) (two_sites {})))) ''s2''
      = Some (site_s2\<lparr>messages_relayed := 1, bytes_relayed := 10\<rparr>)
   \<and> map_of (sites (snd (handle_message dumps0 msg_payload 5 ''s1''
        ((msg ''mesh_message'')\<lparr>msg_dest := Some ''0xBBB'', msg_payload := ''hi''\<rparr>) (two_sites {})))) ''s1''
      = Some site_s1
   \<and> \<not> fst (deduplicate_message msg_payload 6
      ((msg ''mesh_message'')\<lparr>msg_dest := Some ''0xBBB'', msg_payload := ''hi''\<rparr>)
      (snd (handle_message dumps0 msg_payload 5 ''s1''
        ((msg ''mesh_message'')\<lparr>msg_dest := Some ''0xBBB'', msg_payload := ''hi''\<rparr>) (two_sites {}))))
   \<and> total_messages (snd (handle_message dumps0 msg_payload 6 ''s1''
        ((msg ''mesh_message'')\<lparr>msg_dest := Some ''0xBBB'', msg_payload := ''hi''\<rparr>)
        (snd (handle_message dumps0 msg_payload 5 ''s1''
          ((msg ''mesh_message'')\<lparr>msg_dest := Some ''0xBBB'', msg_payload := ''hi''\<rparr>) (two_sites {}))))) = 1"
proof -
  let ?m = "(msg ''mesh_message'')\<lparr>msg_dest := Some ''0xBBB'', msg_payload := ''hi''\<rparr>"
  let ?b' = "snd (handle_message dumps0 msg_payload 5 ''s1'' ?m (two_sites {}))"
  have t: "msg_type ?m = Some ''mesh_message''" by (simp add: msg_def)
  have d: "fst (deduplicate_message msg_payload 5 ?m (two_sites {}))" by code_simp
  have u: "fst (deduplicate_message msg_payload 5 ?m (two_sites {})) \<and> msg_dest ?m = Some ''0xBBB'' \<and> ''0xBBB'' \<noteq> []
    \<and> find_route ''0xBBB'' (two_sites {}) = Some ''s2'' \<and> ''s2'' \<noteq> [] \<and> ''s2'' \<noteq> ''s1''
    \<and> map_of (sites (two_sites {})) ''s2'' = Some site_s2 \<and> websocket site_s2 \<notin> closed (two_sites {})"
    using d by (simp add: msg_def find_route_def two_sites_def site_s2_def)
  have c: "site_s2\<lparr>messages_relayed := messages_relayed site_s2 + 1,
      bytes_relayed := bytes_relayed site_s2 + int (length (dumps0 (Relayed ?m)))\<rparr>
      = site_s2\<lparr>messages_relayed := 1, bytes_relayed := 10\<rparr>"
    by (simp add: site_s2_def dumps0_def)
  have z: "total_messages (two_sites {}) = 0" by (simp add: two_sites_def)
  have s1: "map_of (sites (two_sites {})) ''s1'' = Some site_s1" by (simp add: two_sites_def)
  note rc = relay_counters[OF t, of msg_payload 5 "two_sites {}" dumps0 "''s1''"]
  from rc have "fst (deduplicate_message msg_payload 5 ?m (two_sites {})) \<longrightarrow>
      total_messages ?b' = total_messages (two_sites {}) + 1" by (elim conjE)
  with d z have tot: "total_messages ?b' = 1" by simp
  from rc have "\<forall>dest t st. fst (deduplicate_message msg_payload 5 ?m (two_sites {})) \<and> msg_dest ?m = Some dest \<and> dest \<noteq> []
              \<and> find_route dest (two_sites {}) = Some t \<and> t \<noteq> [] \<and> t \<noteq> ''s1''
              \<and> map_of (sites (two_sites {})) t = Some st \<and> websocket st \<notin> closed (two_sites {}) \<longrightarrow>
            map_of (sites ?b') t
              = Some (st\<lparr>messages_relayed := messages_relayed st + 1,
                         bytes_relayed := bytes_relayed st + int (length (dumps0 (Relayed ?m)))\<rparr>)
            \<and> (\<forall>k. k \<noteq> t \<longrightarrow> map_of (sites ?b') k = map_of (sites (two_sites {})) k)"
    by (elim conjE)
  from this[rule_format, OF u] c s1
  have tgt: "map_of (sites ?b') ''s2'' = Some (site_s2\<lparr>messages_relayed := 1, bytes_relayed := 10\<rparr>)"
    and snd: "map_of (sites ?b') ''s1'' = Some site_s1"
    by simp_all
  have d2: "\<not> fst (deduplicate_message msg_payload 6 ?m ?b')" by code_simp
  note rc2 = relay_counters[OF t, of msg_payload 6 ?b' dumps0 "''s1''"]
  from rc2 have "\<not> fst (deduplicate_message msg_payload 6 ?m ?b') \<longrightarrow>
      total_messages (snd (handle_message dumps0 msg_payload 6 ''s1'' ?m ?b')) = total_messages ?b'
      \<and> sites (snd (handle_message dumps0 msg_payload 6 ''s1'' ?m ?b')) = sites ?b'
      \<and> sent (snd (handle_message dumps0 msg_payload 6 ''s1'' ?m ?b')) = sent ?b'"
    by (elim conjE)
  with d2 tot have second: "total_messages (snd (handle_message dumps0 msg_payload 6 ''s1'' ?m ?b')) = 1"
    by simp
  from d d2 tot tgt snd second show ?thesis by blast
qed

section \<open>A second register on an identified connection\<close>

text \<open>
  Claim C8, as the specification states it, has the bridge answer a second \<open>register\<close>
  with an error and forward nothing. The handler looks at \<open>register\<close> only while its
  \<open>site_id\<close> is \<open>None\<close>; afterwards the message goes to \<open>handle_message\<close>, where
  \<open>register\<close> is a kind it does not know: the connection of \<open>s1\<close> sends \<open>register\<close> again,
  and all that is sent is the message itself, to \<open>s2\<close>.
\<close>

theorem second_register_counterexample:
  "fst (handler_frame dumps0 msg_payload 5 1 (Some ''s1'')
      (frame_of ((msg ''register'')\<lparr>msg_site_id := Some ''s1''\<rparr>)) (two_sites {})) = Open (Some ''s1'')
   \<and> delta (two_sites {}) (snd (handler_frame dumps0 msg_payload 5 1 (Some ''s1'')
      (frame_of ((msg ''register'')\<lparr>msg_site_id := Some ''s1''\<rparr>)) (two_sites {})))
     = [(2, Relayed ((msg ''register'')\<lparr>msg_site_id := Some ''s1''\<rparr>))]"
  by code_simp

text \<open>
  Claim C8, amended. A \<open>register\<close> on a connection that has registered keeps the
  connection open with its site id, and is handled as a message of unknown kind: it
  is deduplicated and, when new, broadcast to every other registered site. Nothing but
  the message itself and \<open>site_left\<close> messages is sent, so no error and no
  acknowledgement; no site is registered and no record of a site changes; with no
  websocket of a site closed, the registry and the routing table are what they were.
\<close>

theorem second_register_is_relayed:
  assumes "msg_type m = Some ''register''"
  shows "fst (handler_frame dumps msg_hash now ws (Some sid) \<lparr>raw_length = n, decoded = Some m\<rparr> b)
           = Open (Some sid)
       \<and> (\<forall>k s'. map_of (sites (snd (handler_frame dumps msg_hash now ws (Some sid)
                       \<lparr>raw_length = n, decoded = Some m\<rparr> b))) k = Some s' \<longrightarrow>
             map_of (sites b) k = Some s')
       \<and> (\<forall>ws' w. (ws', w) \<in> set (delta b (snd (handler_frame dumps msg_hash now ws (Some sid)
                       \<lparr>raw_length = n, decoded = Some m\<rparr> b))) \<longrightarrow>
             w = Relayed m \<or> (\<exists>X nm. w = SiteLeft X nm))
       \<and> (fst (deduplicate_message msg_hash now m b) \<longrightarrow>
             (\<forall>k s. (k, s) \<in> set (sites b) \<and> k \<noteq> sid \<longrightarrow>
                (websocket s, Relayed m) \<in> set (delta b (snd (handler_frame dumps msg_hash now ws (Some sid)
                       \<lparr>raw_length = n, decoded = Some m\<rparr> b)))))
       \<and> (\<not> fst (deduplicate_message msg_hash now m b) \<longrightarrow>
             delta b (snd (handler_frame dumps msg_hash now ws (Some sid)
                       \<lparr>raw_length = n, decoded = Some m\<rparr> b)) = [])
       \<and> ((\<forall>(k, s) \<in> set (sites b). websocket s \<notin> closed b) \<longrightarrow>
             sites (snd (handler_frame dumps msg_hash now ws (Some sid)
                       \<lparr>raw_length = n, decoded = Some m\<rparr> b)) = sites b
             \<and> routing_table (snd (handler_frame dumps msg_hash now ws (Some sid)
                       \<lparr>raw_length = n, decoded = Some m\<rparr> b)) = routing_table b)"
proof -
  let ?d = "deduplicate_message msg_hash now m b"
  let ?b1 = "snd ?d"
  let ?h = "snd (handle_message dumps msg_hash now sid m b)"
  let ?r = "handler_frame dumps msg_hash now ws (Some sid) \<lparr>raw_length = n, decoded = Some m\<rparr> b"
  have other: "get_default [] (msg_type m) \<notin> {''heartbeat'', ''nodes_update'', ''mesh_message'', ''query_sites''}"
    using assms by simp
  have hm: "handle_message dumps msg_hash now sid m b =
      (Returned, if fst ?d then broadcast (Relayed m) (Some sid) ?b1 else ?b1)"
    by (rule handle_message_other[OF other])
  have r: "?r = (Open (Some sid), ?h\<lparr>total_bytes := total_bytes ?h + int n\<rparr>)"
    by (simp add: handler_frame_def handler_body_def hm)
  have st: "sites (snd ?r) = sites ?h" "sent (snd ?r) = sent ?h" "routing_table (snd ?r) = routing_table ?h"
    by (simp_all add: r)
  have dl: "delta b (snd ?r) = delta ?b1 ?h"
    by (simp add: delta_def st)
  have h: "?h = (if fst ?d then broadcast (Relayed m) (Some sid) ?b1 else ?b1)"
    by (simp add: hm)
  have sub: "sub_registry ?b1 ?h"
    unfolding h by (simp add: sub_registry_refl broadcast_def sub_registry_unregister(2))
  show ?thesis
  proof (intro conjI allI impI)
    show "fst ?r = Open (Some sid)" by (simp add: r)
  next
    fix k s' assume "map_of (sites (snd ?r)) k = Some s'"
    then show "map_of (sites b) k = Some s'"
      using sub_registry_map_of[OF sub, of k] by (simp add: st split: if_splits)
  next
    fix ws' w assume "(ws', w) \<in> set (delta b (snd ?r))"
    then have "(ws', w) \<in> set (delta b ?h)" by (simp add: delta_def st)
    from delta_handle_message[OF this] assms
    show "w = Relayed m \<or> (\<exists>X nm. w = SiteLeft X nm)" by auto
  next
    fix k s assume d: "fst ?d" and ks: "(k, s) \<in> set (sites b) \<and> k \<noteq> sid"
    then have "(k, s) \<in> set (sites ?b1)" "Some k \<noteq> Some sid" by simp_all
    then have "(websocket s, Relayed m) \<in> set (delta ?b1 (broadcast (Relayed m) (Some sid) ?b1))"
      by (rule broadcast_reaches)
    with d show "(websocket s, Relayed m) \<in> set (delta b (snd ?r))"
      unfolding dl h by simp
  next
    assume "\<not> fst ?d"
    then show "delta b (snd ?r) = []" unfolding dl h by simp
  next
    assume o: "\<forall>(k, s) \<in> set (sites b). websocket s \<notin> closed b"
    then have o1: "\<forall>(k, s) \<in> set (sites ?b1). websocket s \<notin> closed ?b1" by simp
    show "sites (snd ?r) = sites b"
      unfolding st h using broadcast_all_open(1)[OF o1] by simp
    show "routing_table (snd ?r) = routing_table b"
      unfolding st h using broadcast_all_open(2)[OF o1] by simp
  qed
qed

text \<open>
  The connection of \<open>s1\<close> sends \<open>register\<close> again at second 5: it stays open as \<open>s1\<close>, the
  message reaches websocket 2, and the registry is unchanged. It sends the same again
  at second 6: a duplicate, and nothing is sent.
\<close>

theorem second_register_is_relayed_witness:
  "fst (handler_frame dumps0 msg_payload 5 1 (Some ''s1'')
      \<lparr>raw_length = 40, decoded = Some ((msg ''register'')\<lparr>msg_site_id := Some ''s1''\<rparr>)\<rparr> (two_sites {}))
     = Open (Some ''s1'')
   \<and> fst (deduplicate_message msg_payload 5 ((msg ''register'')\<lparr>msg_site_id := Some ''s1''\<rparr>) (two_sites {}))
   \<and> (2, Relayed ((msg ''register'')\<lparr>msg_site_id := Some ''s1''\<rparr>))
       \<in> set (delta (two_sites {}) (snd (handler_frame dumps0 msg_payload 5 1 (Some ''s1'')
          \<lparr>raw_length = 40, decoded = Some ((msg ''register'')\<lparr>msg_site_id := Some ''s1''\<rparr>)\<rparr> (two_sites {}))))
   \<and> sites (snd (handler_frame dumps0 msg_payload 5 1 (Some ''s1'')
          \<lparr>raw_length = 40, decoded = Some ((msg ''register'')\<lparr>msg_site_id := Some ''s1''\<rparr>)\<rparr> (two_sites {})))
       = sites (two_sites {})
   \<and> \<not> fst (deduplicate_message msg_payload 6 ((msg ''register'')\<lparr>msg_site_id := Some ''s1''\<rparr>)
          (snd (handler_frame dumps0 msg_payload 5 1 (Some ''s1'')
            \<lparr>raw_length = 40, decoded = Some ((msg ''register'')\<lparr>msg_site_id := Some ''s1''\<rparr>)\<rparr> (two_sites {}))))
   \<and> delta (snd (handler_frame dumps0 msg_payload 5 1 (Some ''s1'')
            \<lparr>raw_length = 40, decoded = Some ((msg ''register'')\<lparr>msg_site_id := Some ''s1''\<rparr>)\<rparr> (two_sites {})))
         (snd (handler_frame dumps0 msg_payload 6 1 (Some ''s1'')
            \<lparr>raw_length = 40, decoded = Some ((msg ''register'')\<lparr>msg_site_id := Some ''s1''\<rparr>)\<rparr>
            (snd (handler_frame dumps0 msg_payload 5 1 (Some ''s1'')
              \<lparr>raw_length = 40, decoded = Some ((msg ''register'')\<lparr>msg_site_id := Some ''s1''\<rparr>)\<rparr> (two_sites {})))))
       = []"
proof -
  let ?m = "(msg ''register'')\<lparr>msg_site_id := Some ''s1''\<rparr>"
  let ?f = "\<lparr>raw_length = 40, decoded = Some ?m\<rparr>"
  let ?b' = "snd (handler_frame dumps0 msg_payload 5 1 (Some ''s1'') ?f (two_sites {}))"
  have t: "msg_type ?m = Some ''register''" by (simp add: msg_def)
  have d: "fst (deduplicate_message msg_payload 5 ?m (two_sites {}))" by code_simp
  have d2: "\<not> fst (deduplicate_message msg_payload 6 ?m ?b')" by code_simp
  have k: "(''s2'', site_s2) \<in> set (sites (two_sites {})) \<and> ''s2'' \<noteq> ''s1''"
    by (simp add: two_sites_def)
  have w: "websocket site_s2 = 2" by (simp add: site_s2_def)
  have o: "\<forall>(k, s) \<in> set (sites (two_sites {})). websocket s \<notin> closed (two_sites {})"
    by (simp add: two_sites_def)
  note a = second_register_is_relayed[OF t, of dumps0 msg_payload 5 1 "''s1''" 40 "two_sites {}"]
  note b = second_register_is_relayed[OF t, of dumps0 msg_payload 6 1 "''s1''" 40 ?b']
  from a have a1: "fst (handler_frame dumps0 msg_payload 5 1 (Some ''s1'') ?f (two_sites {})) = Open (Some ''s1'')"
    by (elim conjE)
  from a have "fst (deduplicate_message msg_payload 5 ?m (two_sites {})) \<longrightarrow>
      (\<forall>k s. (k, s) \<in> set (sites (two_sites {})) \<and> k \<noteq> ''s1'' \<longrightarrow>
         (websocket s, Relayed ?m) \<in> set (delta (two_sites {}) ?b'))"
    by (elim conjE)
  with d k w have a2: "(2, Relayed ?m) \<in> set (delta (two_sites {}) ?b')" by metis
  from a have "(\<forall>(k, s) \<in> set (sites (two_sites {})). websocket s \<notin> closed (two_sites {})) \<longrightarrow>
      sites ?b' = sites (two_sites {}) \<and> routing_table ?b' = routing_table (two_sites {})"
    by (elim conjE)
  with o have a3: "sites ?b' = sites (two_sites {})" by blast
  from b have "\<not> fst (deduplicate_message msg_payload 6 ?m ?b') \<longrightarrow>
      delta ?b' (snd (handler_frame dumps0 msg_payload 6 1 (Some ''s1'') ?f ?b')) = []"
    by (elim conjE)
  with d2 have b1: "delta ?b' (snd (handler_frame dumps0 msg_payload 6 1 (Some ''s1'') ?f ?b')) = []"
    by blast
  from a1 d a2 a3 d2 b1 show ?thesis by blast
qed

section \<open>The contract of unregistering\<close>




section \<open>A nodes update of an unregistered site\<close>

text \<open>
  Claim C10. Handling a \<open>nodes_update\<close> returns exactly when the site is registered.
  For a site that is not (any more), the routes are written first, each node of the list
  then resolving to that site, and the lookup of the site's name raises \<open>KeyError\<close>; the
  site stays unregistered.
\<close>

theorem nodes_update_key_error:
  assumes "msg_type m = Some ''nodes_update''"
  shows "(sid \<in> registered b \<longrightarrow> fst (handle_message dumps msg_hash now sid m b) = Returned)
       \<and> (sid \<notin> registered b \<longrightarrow>
            fst (handle_message dumps msg_hash now sid m b) = Raised (KeyError sid)
            \<and> sid \<notin> registered (snd (handle_message dumps msg_hash now sid m b))
            \<and> (\<forall>n \<in> set (get_default [] (msg_nodes m)).
                  find_route n (snd (handle_message dumps msg_hash now sid m b)) = Some sid))"
proof -
  let ?b1 = "update_routing sid (get_default [] (msg_nodes m)) b"
  have reg: "registered ?b1 = registered b" by simp
  have hm: "handle_message dumps msg_hash now sid m b =
      (case map_of (sites ?b1) sid of None \<Rightarrow> (Raised (KeyError sid), ?b1) | Some s \<Rightarrow> (Returned, ?b1))"
    using assms by (simp add: handle_message_def Let_def)
  show ?thesis
  proof (cases "map_of (sites ?b1) sid")
    case None
    then have "sid \<notin> registered b" using map_of_registered[of ?b1 sid] reg by simp
    with None hm show ?thesis
      by (simp add: find_route_def routing_table_update_routing)
  next
    case (Some s)
    then have "sid \<in> registered b" using map_of_in_registered[of ?b1 sid s] reg by simp
    with Some hm show ?thesis by simp
  qed
qed

text \<open>
  Both sites of the bridge are silent until second 200 and the heartbeat checker
  unregisters them; the connection of \<open>s1\<close> is still open and sends a \<open>nodes_update\<close>:
  the handler ends with \<open>KeyError\<close>, its \<open>finally\<close> finds nothing to unregister, and
  \<open>0xAAA\<close> resolves to the unregistered \<open>s1\<close>. Before the check the same message returns.
\<close>

theorem nodes_update_key_error_witness:
  "''s1'' \<in> registered (two_sites {})
   \<and> fst (handle_message dumps0 msg_payload 200 ''s1''
          ((msg ''nodes_update'')\<lparr>msg_nodes := Some [''0xAAA'']\<rparr>) (two_sites {})) = Returned
   \<and> ''s1'' \<notin> registered (heartbeat_check 200 (two_sites {}))
   \<and> find_route ''0xAAA'' (heartbeat_check 200 (two_sites {})) = None
   \<and> fst (handle_message dumps0 msg_payload 200 ''s1''
          ((msg ''nodes_update'')\<lparr>msg_nodes := Some [''0xAAA'']\<rparr>) (heartbeat_check 200 (two_sites {})))
       = Raised (KeyError ''s1'')
   \<and> find_route ''0xAAA'' (snd (handle_message dumps0 msg_payload 200 ''s1''
          ((msg ''nodes_update'')\<lparr>msg_nodes := Some [''0xAAA'']\<rparr>) (heartbeat_check 200 (two_sites {}))))
       = Some ''s1''
   \<and> fst (handler_frame dumps0 msg_payload 200 1 (Some ''s1'')
          (frame_of ((msg ''nodes_update'')\<lparr>msg_nodes := Some [''0xAAA'']\<rparr>)) (heartbeat_check 200 (two_sites {})))
       = Failed (KeyError ''s1'')
   \<and> find_route ''0xAAA'' (snd (handler_frame dumps0 msg_payload 200 1 (Some ''s1'')
          (frame_of ((msg ''nodes_update'')\<lparr>msg_nodes := Some [''0xAAA'']\<rparr>)) (heartbeat_check 200 (two_sites {}))))
       = Some ''s1''"
proof -
  let ?m = "(msg ''nodes_update'')\<lparr>msg_nodes := Some [''0xAAA'']\<rparr>"
  have t: "msg_type ?m = Some ''nodes_update''" by (simp add: msg_def)
  have g: "get_default [] (msg_nodes ?m) = [''0xAAA'']" by (simp add: msg_def)
  have r1: "''s1'' \<in> registered (two_sites {})" by (simp add: registered_def two_sites_def)
  have r2: "''s1'' \<notin> registered (heartbeat_check 200 (two_sites {}))" by code_simp
  have r3: "find_route ''0xAAA'' (heartbeat_check 200 (two_sites {})) = None" by code_simp
  have h1: "fst (handler_frame dumps0 msg_payload 200 1 (Some ''s1'') (frame_of ?m) (heartbeat_check 200 (two_sites {})))
       = Failed (KeyError ''s1'')" by code_simp
  have h2: "find_route ''0xAAA'' (snd (handler_frame dumps0 msg_payload 200 1 (Some ''s1'')
          (frame_of ?m) (heartbeat_check 200 (two_sites {})))) = Some ''s1''" by code_simp
  from nodes_update_key_error[OF t, of "''s1''" "two_sites {}" dumps0 msg_payload 200]
    nodes_update_key_error[OF t, of "''s1''" "heartbeat_check 200 (two_sites {})" dumps0 msg_payload 200]
    r1 r2 r3 h1 h2 g
  show ?thesis by simp
qed
section \<open>Deduplication window\<close>

text \<open>
  Claim C4. With the time-to-live of 60 seconds that \<open>__init__\<close> sets:
  a message whose fingerprint has no entry is reported new and entered with the current
  time; while the entry is younger than 60 seconds the message is reported duplicate and
  the entry keeps the time of the first arrival; once the entry is 60 seconds old or
  older it counts as absent, and the message is reported new and entered with the
  current time. Every call drops all entries that are 60 seconds old or older.
\<close>

theorem deduplicate_message_window:
  assumes ttl: "message_ttl b = 60"
  shows "(seen_messages b (msg_hash m) = None \<longrightarrow>
            fst (deduplicate_message msg_hash now m b) = True \<and>
            seen_messages (snd (deduplicate_message msg_hash now m b)) (msg_hash m) = Some now)
       \<and> (\<forall>t0. seen_messages b (msg_hash m) = Some t0 \<and> now - t0 < 60 \<longrightarrow>
            fst (deduplicate_message msg_hash now m b) = False \<and>
            seen_messages (snd (deduplicate_message msg_hash now m b)) (msg_hash m) = Some t0)
       \<and> (\<forall>t0. seen_messages b (msg_hash m) = Some t0 \<and> now - t0 \<ge> 60 \<longrightarrow>
            fst (deduplicate_message msg_hash now m b) = True \<and>
            seen_messages (snd (deduplicate_message msg_hash now m b)) (msg_hash m) = Some now)
       \<and> (\<forall>k t. seen_messages b k = Some t \<and> now - t \<ge> 60 \<and> k \<noteq> msg_hash m \<longrightarrow>
            seen_messages (snd (deduplicate_message msg_hash now m b)) k = None)
       \<and> (\<forall>k t. seen_messages b k = Some t \<and> now - t < 60 \<and> k \<noteq> msg_hash m \<longrightarrow>
            seen_messages (snd (deduplicate_message msg_hash now m b)) k = Some t)"
  using ttl by (auto simp: deduplicate_message_def Let_def)

text \<open>
  The fingerprint \<open>''f''\<close> arrives at second 100 (new), at second 130 (duplicate, the
  entry still says 100) and at second 160 (new again, 60 seconds after the first
  arrival and 30 after the second), while an entry \<open>''g''\<close> of second 65 is dropped at second 130.
\<close>

theorem deduplicate_message_window_witness:
  "fst (deduplicate_message msg_payload 100 \<lparr>msg_type = Some ''mesh_message'', msg_site_id = None,
          msg_name = None, msg_dest = None, msg_nodes = None, msg_payload = ''f''\<rparr> (init 0 {})) = True
   \<and> fst (deduplicate_message msg_payload 130 \<lparr>msg_type = Some ''mesh_message'', msg_site_id = None,
          msg_name = None, msg_dest = None, msg_nodes = None, msg_payload = ''f''\<rparr>
          ((init 0 {})\<lparr>seen_messages := [''f'' \<mapsto> 100, ''g'' \<mapsto> 65]\<rparr>)) = False
   \<and> seen_messages (snd (deduplicate_message msg_payload 130 \<lparr>msg_type = Some ''mesh_message'',
          msg_site_id = None, msg_name = None, msg_dest = None, msg_nodes = None, msg_payload = ''f''\<rparr>
          ((init 0 {})\<lparr>seen_messages := [''f'' \<mapsto> 100, ''g'' \<mapsto> 65]\<rparr>))) ''f'' = Some 100
   \<and> seen_messages (snd (deduplicate_message msg_payload 130 \<lparr>msg_type = Some ''mesh_message'',
          msg_site_id = None, msg_name = None, msg_dest = None, msg_nodes = None, msg_payload = ''f''\<rparr>
          ((init 0 {})\<lparr>seen_messages := [''f'' \<mapsto> 100, ''g'' \<mapsto> 65]\<rparr>))) ''g'' = None
   \<and> fst (deduplicate_message msg_payload 160 \<lparr>msg_type = Some ''mesh_message'', msg_site_id = None,
          msg_name = None, msg_dest = None, msg_nodes = None, msg_payload = ''f''\<rparr>
          ((init 0 {})\<lparr>seen_messages := [''f'' \<mapsto> 100]\<rparr>)) = True
   \<and> seen_messages (snd (deduplicate_message msg_payload 160 \<lparr>msg_type = Some ''mesh_message'',
          msg_site_id = None, msg_name = None, msg_dest = None, msg_nodes = None, msg_payload = ''f''\<rparr>
          ((init 0 {})\<lparr>seen_messages := [''f'' \<mapsto> 100]\<rparr>))) ''f'' = Some 160"
  using
    deduplicate_message_window [of "init 0 {}" msg_payload
      "\<lparr>msg_type = Some ''mesh_message'', msg_site_id = None, msg_name = None, msg_dest = None,
        msg_nodes = None, msg_payload = ''f''\<rparr>" 100]
    deduplicate_message_window [of "(init 0 {})\<lparr>seen_messages := [''f'' \<mapsto> 100, ''g'' \<mapsto> 65]\<rparr>" msg_payload
      "\<lparr>msg_type = Some ''mesh_message'', msg_site_id = None, msg_name = None, msg_dest = None,
        msg_nodes = None, msg_payload = ''f''\<rparr>" 130]
    deduplicate_message_window [of "(init 0 {})\<lparr>seen_messages := [''f'' \<mapsto> 100]\<rparr>" msg_payload
      "\<lparr>msg_type = Some ''mesh_message'', msg_site_id = None, msg_name = None, msg_dest = None,
        msg_nodes = None, msg_payload = ''f''\<rparr>" 160]
  by (simp add: init_def)


end
